(* ===== verification/Prelude.thy ===== *)
theory Prelude
  imports Main "HOL-Library.Stream" "HOL-Library.Word"
begin

text \<open>
  Shared vocabulary of the development of \<^verbatim>\<open>src/RSA.py\<close>.
  \<^item> Python's exceptions become the values of \<open>error\<close>; every function of the code
    that may raise returns \<open>error + 'a\<close>, with \<open>Inl\<close> for the exception.
  \<^item> Python \<open>int\<close> is HOL \<open>int\<close>; \<open>//\<close> and \<open>%\<close> round towards minus infinity
    like HOL's \<open>div\<close> and \<open>mod\<close> on \<open>int\<close>, so they are written as such.
  \<^item> Python \<open>str\<close> is a list of Unicode code points (\<open>pystr\<close>); \<open>bytes\<close> is a list
    of \<open>8 word\<close>.
  \<^item> The cryptographically secure random source of the \<open>secrets\<close> module is an
    infinite tape of raw draws (\<open>rand_src\<close>, a \<open>nat stream\<close>), threaded through the
    code as explicit state: \<open>randbelow k\<close> and \<open>randbits b\<close> read the next draw and
    reduce it into their range.  Every value of the range is the reduction of some draw,
    so a theorem quantified over all tapes covers every outcome of the random source.
\<close>

named_theorems model_simps \<open>equations that evaluate the model on concrete inputs\<close>

section \<open>Errors\<close>

text \<open>
  The spec's error taxonomy (\<open>InvalidInput\<close>, \<open>MessageTooLarge\<close>, \<open>NoInverse\<close>,
  \<open>DecodeError\<close>), and the Python exceptions the code can raise besides them:
  \<open>EncodeError\<close> (\<^verbatim>\<open>UnicodeEncodeError\<close> of \<^verbatim>\<open>str.encode\<close>),
  \<open>OverflowError\<close> (of \<^verbatim>\<open>int.to_bytes\<close>) and \<open>PowError\<close> (the
  \<^verbatim>\<open>ValueError\<close> of the built-in three-argument \<^verbatim>\<open>pow\<close>).
\<close>

datatype error =
    InvalidInput
  | MessageTooLarge
  | NoInverse
  | DecodeError
  | EncodeError
  | OverflowError
  | PowError

section \<open>Types of the model\<close>

type_synonym pystr = "nat list"
type_synonym byte = "8 word"
type_synonym rand_src = "nat stream"

text \<open>A Python string literal made of ASCII characters.\<close>

definition ascii :: "string \<Rightarrow> pystr" where
  "ascii s = map of_char s"

section \<open>The random source\<close>

text \<open>\<^verbatim>\<open>secrets.randbelow(k)\<close> for the positive bounds with which the code calls it.\<close>

definition randbelow :: "int \<Rightarrow> rand_src \<Rightarrow> int \<times> rand_src" where
  "randbelow k s = (int (shd s) mod k, stl s)"

text \<open>\<^verbatim>\<open>secrets.randbits(b)\<close>: a value of \<open>b\<close> random bits.\<close>

definition randbits :: "nat \<Rightarrow> rand_src \<Rightarrow> int \<times> rand_src" where
  "randbits b s = (int (shd s mod 2 ^ b), stl s)"

lemma randbelow_range:
  assumes "0 < k"
  shows "0 \<le> fst (randbelow k s) \<and> fst (randbelow k s) < k"
  using assms by (simp add: randbelow_def)

lemma randbelow_onto:
  assumes "0 \<le> v" and "v < k"
  shows "fst (randbelow k (nat v ## s)) = v \<and> snd (randbelow k (nat v ## s)) = s"
  using assms by (simp add: randbelow_def)

lemma randbits_range: "0 \<le> fst (randbits b s) \<and> fst (randbits b s) < 2 ^ b"
proof -
  have "shd s mod 2 ^ b < 2 ^ b" by simp
  then have "int (shd s mod 2 ^ b) < int (2 ^ b)" by linarith
  then show ?thesis by (simp add: randbits_def)
qed

lemma randbits_onto:
  assumes "v < 2 ^ b"
  shows "fst (randbits b (v ## s)) = int v \<and> snd (randbits b (v ## s)) = s"
  using assms by (simp add: randbits_def)

lemma randbelow_snd [simp, model_simps]: "snd (randbelow k s) = stl s"
  by (simp add: randbelow_def)

lemma randbits_snd [simp, model_simps]: "snd (randbits b s) = stl s"
  by (simp add: randbits_def)

section \<open>Generic lemmas on integers\<close>

lemma mod_pow_mod_base [simp]: "(a mod m) ^ k mod m = a ^ k mod (m::int)"
  by (simp add: power_mod)

lemma mod_nonneg_less:
  fixes m :: int
  assumes "0 < m"
  shows "0 \<le> a mod m \<and> a mod m < m"
  using assms by simp

lemma mod_eq_self_iff:
  fixes m :: int
  assumes "0 < m"
  shows "a mod m = a \<longleftrightarrow> 0 \<le> a \<and> a < m"
  using assms by (metis mod_nonneg_less mod_pos_pos_trivial)

end
