(* ===== verification/NumberTheory.thy ===== *)
theory NumberTheory
  imports Prelude
begin

text \<open>
  The arithmetic the RSA code relies on.  Main has no primes, so primality is defined
  here by trial division (\<open>is_prime\<close>, an executable reference predicate, not a model
  of code), and the classical facts are proved from it: Euclid's lemma, Fermat's little
  theorem (by the binomial theorem), the square roots of one modulo a prime (the fact
  behind Miller--Rabin), and the exponent law \<open>a ^ (e * d) \<equiv> a (mod p * q)\<close>
  behind RSA.
\<close>

definition is_prime :: "int \<Rightarrow> bool" where
  "is_prime p \<longleftrightarrow> 1 < p \<and> (\<forall>d \<in> {2..<p}. \<not> d dvd p)"

named_theorems prime_facts \<open>facts on is_prime shared by the components\<close>

section \<open>Divisors of a prime\<close>

lemma is_prime_gt1 [prime_facts]: "is_prime p \<Longrightarrow> 1 < p"
  by (simp add: is_prime_def)

lemma prime_divisor:
  assumes "is_prime p" and "0 < d" and "d dvd p"
  shows "d = 1 \<or> d = p"
proof -
  have "1 < p" using assms(1) by (simp add: is_prime_def)
  then have "d \<le> p" using assms(3) by (simp add: zdvd_imp_le)
  then show ?thesis using assms by (auto simp: is_prime_def)
qed

lemma prime_coprime_or_dvd:
  assumes "is_prime p"
  shows "coprime p a \<or> p dvd a"
proof -
  have pos: "0 < gcd p a" using is_prime_gt1 [OF assms] by simp
  have "gcd p a = 1 \<or> gcd p a = p"
    using prime_divisor [OF assms pos] by simp
  then show ?thesis
    by (metis gcd_dvd2 is_unit_gcd one_dvd)
qed

lemma prime_dvd_mult [prime_facts]:
  assumes "is_prime p" and "p dvd a * b"
  shows "p dvd a \<or> p dvd b"
  using prime_coprime_or_dvd [OF assms(1), of a] assms(2)
  by (auto simp: coprime_dvd_mult_right_iff)

lemma prime_dvd_power [prime_facts]:
  assumes "is_prime p" and "p dvd a ^ k"
  shows "p dvd a"
  using assms(2)
proof (induction k)
  case 0
  then show ?case using is_prime_gt1 [OF assms(1)] by (simp add: zdvd1_eq)
next
  case (Suc k)
  then show ?case using prime_dvd_mult [OF assms(1)] by auto
qed

lemma distinct_primes_coprime [prime_facts]:
  assumes "is_prime p" and "is_prime q" and "p \<noteq> q"
  shows "coprime p q"
proof -
  have "\<not> p dvd q"
  proof
    assume "p dvd q"
    moreover have "0 < p" using is_prime_gt1 [OF assms(1)] by simp
    ultimately have "p = 1 \<or> p = q"
      using prime_divisor [OF assms(2)] by blast
    then show False using is_prime_gt1 [OF assms(1)] assms(3) by simp
  qed
  then show ?thesis using prime_coprime_or_dvd [OF assms(1)] by blast
qed

section \<open>Fermat's little theorem\<close>

lemma prime_dvd_choose:
  assumes "is_prime (int p)" and "0 < k" and "k < p"
  shows "int p dvd int (p choose k)"
proof -
  have "k * (p choose k) = p * (p - 1 choose (k - 1))"
    using assms(2) by (rule times_binomial_minus1_eq)
  then have "int p dvd int k * int (p choose k)"
    by (metis dvd_triv_left of_nat_mult)
  moreover have "\<not> int p dvd int k"
    using assms(2,3) by (auto dest: zdvd_imp_le)
  ultimately show ?thesis using prime_dvd_mult [OF assms(1)] by blast
qed

lemma binomial_succ_mod:
  assumes "is_prime (int p)"
  shows "(a + 1) ^ p mod int p = (a ^ p + 1) mod int p"
proof -
  let ?f = "\<lambda>k. int (p choose k) * a ^ k"
  have p0: "0 < p" using is_prime_gt1 [OF assms] by simp
  have split: "{..p} = insert 0 (insert p {1..<p})" using p0 by auto
  have "(a + 1) ^ p = (\<Sum>k\<le>p. ?f k)"
    by (simp add: binomial_ring)
  also have "\<dots> = ?f 0 + (?f p + (\<Sum>k\<in>{1..<p}. ?f k))"
    using p0 by (simp add: split)
  also have "\<dots> = 1 + a ^ p + (\<Sum>k\<in>{1..<p}. ?f k)"
    by simp
  finally have eq: "(a + 1) ^ p = a ^ p + 1 + (\<Sum>k\<in>{1..<p}. ?f k)"
    by simp
  have "int p dvd (\<Sum>k\<in>{1..<p}. ?f k)"
  proof (rule dvd_sum)
    fix k assume "k \<in> {1..<p}"
    then have "int p dvd int (p choose k)"
      by (intro prime_dvd_choose [OF assms]) auto
    then show "int p dvd ?f k" by (rule dvd_mult2)
  qed
  then show ?thesis by (simp add: eq mod_eq_dvd_iff)
qed

lemma fermat_nat_base:
  assumes "is_prime (int p)"
  shows "int n ^ p mod int p = int n mod int p"
proof (induction n)
  case 0
  have "0 < p" using is_prime_gt1 [OF assms] by simp
  then show ?case by (simp add: zero_power)
next
  case (Suc n)
  have "int (Suc n) = int n + 1" by simp
  then have "int (Suc n) ^ p mod int p = (int n ^ p + 1) mod int p"
    using binomial_succ_mod [OF assms, of "int n"] by (simp only:)
  also have "\<dots> = (int n ^ p mod int p + 1) mod int p"
    by (simp add: mod_add_left_eq)
  also have "\<dots> = int (Suc n) mod int p"
    by (simp add: Suc.IH mod_add_left_eq mod_add_right_eq add.commute)
  finally show ?case .
qed

theorem fermat_little [prime_facts]:
  assumes "is_prime P"
  shows "a ^ nat P mod P = a mod P"
proof -
  have P: "int (nat P) = P" using is_prime_gt1 [OF assms] by simp
  have "0 \<le> a mod P" using is_prime_gt1 [OF assms] by simp
  then obtain n where n: "a mod P = int n" using nonneg_int_cases by blast
  have "a ^ nat P mod P = (a mod P) ^ nat P mod P" by simp
  also have "\<dots> = int n mod P"
  proof -
    have "is_prime (int (nat P))" using assms P by simp
    from fermat_nat_base [OF this, of n] show ?thesis unfolding P n .
  qed
  also have "\<dots> = a mod P" by (simp add: n [symmetric])
  finally show ?thesis .
qed

lemma fermat_coprime [prime_facts]:
  assumes "is_prime p" and "\<not> p dvd a"
  shows "a ^ (nat p - 1) mod p = 1"
proof -
  have p1: "1 < p" using is_prime_gt1 [OF assms(1)] .
  have "a * a ^ (nat p - 1) = a ^ nat p"
    using p1 by (simp add: power_eq_if)
  then have "(a * a ^ (nat p - 1)) mod p = (a * 1) mod p"
    using fermat_little [OF assms(1), of a] by simp
  then have "p dvd a * (a ^ (nat p - 1) - 1)"
    by (simp add: mod_eq_dvd_iff right_diff_distrib)
  then have "p dvd a ^ (nat p - 1) - 1"
    using prime_dvd_mult [OF assms(1)] assms(2) by blast
  then have "a ^ (nat p - 1) mod p = 1 mod p" by (simp add: mod_eq_dvd_iff)
  then show ?thesis using p1 by simp
qed

section \<open>Square roots of one modulo a prime\<close>

lemma sqrt_one_mod_prime [prime_facts]:
  assumes "is_prime p" and "x ^ 2 mod p = 1"
  shows "x mod p = 1 \<or> x mod p = p - 1"
proof -
  have p1: "1 < p" using is_prime_gt1 [OF assms(1)] .
  have "x ^ 2 mod p = 1 mod p" using assms(2) p1 by simp
  then have "p dvd x ^ 2 - 1" by (simp add: mod_eq_dvd_iff)
  moreover have "x ^ 2 - 1 = (x - 1) * (x + 1)" by (simp add: power2_eq_square algebra_simps)
  ultimately have "p dvd x - 1 \<or> p dvd x + 1" using prime_dvd_mult [OF assms(1)] by simp
  then show ?thesis
  proof
    assume "p dvd x - 1"
    then have "x mod p = 1 mod p" by (simp add: mod_eq_dvd_iff)
    then show ?thesis using p1 by simp
  next
    assume "p dvd x + 1"
    then have "x mod p = (-1) mod p" by (simp add: mod_eq_dvd_iff)
    then show ?thesis using p1 by (simp add: zmod_minus1)
  qed
qed

section \<open>The RSA exponent law\<close>

lemma prime_power_cycle:
  assumes "is_prime p"
  shows "a ^ (1 + k * (nat p - 1)) mod p = a mod p"
proof (induction k)
  case 0
  then show ?case by simp
next
  case (Suc k)
  have p1: "1 + (nat p - 1) = nat p" using is_prime_gt1 [OF assms] by simp
  have "1 + Suc k * (nat p - 1) = (1 + k * (nat p - 1)) + (nat p - 1)" by simp
  then have "a ^ (1 + Suc k * (nat p - 1)) = a ^ (1 + k * (nat p - 1)) * a ^ (nat p - 1)"
    by (simp only: power_add)
  then have "a ^ (1 + Suc k * (nat p - 1)) mod p
      = (a ^ (1 + k * (nat p - 1)) mod p) * a ^ (nat p - 1) mod p"
    by (simp only: mod_mult_left_eq)
  also have "\<dots> = (a mod p) * a ^ (nat p - 1) mod p"
    by (simp only: Suc.IH)
  also have "\<dots> = a ^ (1 + (nat p - 1)) mod p"
    by (simp add: mod_mult_left_eq)
  also have "\<dots> = a ^ nat p mod p" by (simp only: p1)
  also have "\<dots> = a mod p" by (rule fermat_little [OF assms])
  finally show ?case .
qed

theorem rsa_exponent_law [prime_facts]:
  assumes "is_prime p" and "is_prime q" and "p \<noteq> q"
    and "ed = 1 + k * ((nat p - 1) * (nat q - 1))"
  shows "a ^ ed mod (p * q) = a mod (p * q)"
proof -
  have "ed = 1 + k * (nat q - 1) * (nat p - 1)"
    using assms(4) by (simp add: ac_simps)
  then have "a ^ ed mod p = a mod p"
    using prime_power_cycle [OF assms(1), of a "k * (nat q - 1)"] by (simp only:)
  then have dp: "p dvd a ^ ed - a" by (simp add: mod_eq_dvd_iff)
  have "ed = 1 + k * (nat p - 1) * (nat q - 1)"
    using assms(4) by (simp only: mult.assoc)
  then have "a ^ ed mod q = a mod q"
    using prime_power_cycle [OF assms(2), of a "k * (nat p - 1)"] by (simp only:)
  then have dq: "q dvd a ^ ed - a" by (simp add: mod_eq_dvd_iff)
  have "coprime p q" using distinct_primes_coprime [OF assms(1-3)] .
  then have "p * q dvd a ^ ed - a" using dp dq by (simp add: divides_mult)
  then show ?thesis by (simp add: mod_eq_dvd_iff)
qed

end
