(* ===== verification/ModArith.thy ===== *)
theory ModArith
  imports NumberTheory
begin

text \<open>
  The ModularArithmetic component: \<^verbatim>\<open>egcd\<close> and \<^verbatim>\<open>modinv\<close> of \<^verbatim>\<open>src/RSA.py\<close>
  (lines 41--52), and the built-in three-argument \<^verbatim>\<open>pow\<close> the code calls for every
  exponentiation, with the square-and-multiply routine the spec asks for
  (\<open>mod_exp\<close>) proved equal to \<open>b ^ e mod m\<close>.
\<close>

section \<open>Extended Euclid\<close>

text \<open>
  \<^verbatim>\<open>egcd(a, b)\<close> recurses on \<^verbatim>\<open>(b, a % b)\<close>; Python's \<^verbatim>\<open>%\<close> and \<^verbatim>\<open>//\<close>
  are HOL's \<open>mod\<close> and \<open>div\<close> on \<open>int\<close>.  The recursion stops because
  \<open>\<bar>a mod b\<bar> < \<bar>b\<bar>\<close>.
\<close>

function egcd :: "int \<Rightarrow> int \<Rightarrow> int \<times> int \<times> int" where
  "egcd a b =
     (if b = 0 then (a, 1, 0)
      else (case egcd b (a mod b) of (g, x1, y1) \<Rightarrow> (g, y1, x1 - (a div b) * y1)))"
  by pat_completeness auto
termination
  by (relation "measure (\<lambda>(a, b). nat \<bar>b\<bar>)") (auto simp: abs_mod_less)

declare egcd.simps [simp del]

lemma egcd_0 [simp, model_simps]: "egcd a 0 = (a, 1, 0)"
  by (simp add: egcd.simps)

lemma egcd_step:
  "b \<noteq> 0 \<Longrightarrow> egcd a b =
     (case egcd b (a mod b) of (g, x1, y1) \<Rightarrow> (g, y1, x1 - (a div b) * y1))"
  by (simp add: egcd.simps)

text \<open>\<^verbatim>\<open>modinv(a, m)\<close>: the inverse as \<^verbatim>\<open>x % m\<close>, \<^verbatim>\<open>ValueError\<close> when \<^verbatim>\<open>g != 1\<close>.\<close>

definition modinv :: "int \<Rightarrow> int \<Rightarrow> error + int" where
  "modinv a m = (case egcd a m of (g, x, _) \<Rightarrow> if g \<noteq> 1 then Inl NoInverse else Inr (x mod m))"

section \<open>Modular exponentiation\<close>

text \<open>Square-and-multiply, right to left over the bits of the exponent.\<close>

fun mod_exp :: "int \<Rightarrow> nat \<Rightarrow> int \<Rightarrow> int" where
  "mod_exp b e m =
     (if e = 0 then 1 mod m
      else (let r = mod_exp ((b * b) mod m) (e div 2) m
            in if even e then r else (b * r) mod m))"

declare mod_exp.simps [simp del]

text \<open>
  The built-in \<^verbatim>\<open>pow(b, e, m)\<close> of CPython: \<^verbatim>\<open>ValueError\<close> for \<open>m = 0\<close>; \<open>0\<close>
  for \<open>\<bar>m\<bar> = 1\<close>; for a negative exponent the base is replaced by its inverse modulo
  \<open>\<bar>m\<bar>\<close> (\<^verbatim>\<open>ValueError\<close> when there is none); the result has the sign of \<open>m\<close>,
  which is what HOL's \<open>mod\<close> gives.
\<close>

definition py_pow :: "int \<Rightarrow> int \<Rightarrow> int \<Rightarrow> error + int" where
  "py_pow b e m =
     (if m = 0 then Inl PowError
      else if \<bar>m\<bar> = 1 then Inr 0
      else if e < 0 then
        (case modinv b \<bar>m\<bar> of Inl _ \<Rightarrow> Inl PowError | Inr bi \<Rightarrow> Inr (mod_exp bi (nat (- e)) m))
      else Inr (mod_exp b (nat e) m))"

section \<open>Properties of egcd\<close>

lemma egcd_bezout:
  "egcd a b = (g, x, y) \<Longrightarrow> a * x + b * y = g"
proof (induction a b arbitrary: g x y rule: egcd.induct)
  case (1 a b)
  show ?case
  proof (cases "b = 0")
    case True
    with "1.prems" show ?thesis by simp
  next
    case False
    obtain g' x1 y1 where r: "egcd b (a mod b) = (g', x1, y1)" by (cases "egcd b (a mod b)") auto
    have "egcd a b = (g', y1, x1 - (a div b) * y1)" using False r by (simp add: egcd_step)
    then have "(g, x, y) = (g', y1, x1 - (a div b) * y1)" using "1.prems" by simp
    then have eq: "g = g'" "x = y1" "y = x1 - (a div b) * y1" by auto
    have "b * x1 + (a mod b) * y1 = g'" using "1.IH" [OF False r] .
    moreover have "a mod b = a - (a div b) * b" by (simp add: minus_div_mult_eq_mod)
    ultimately show ?thesis by (simp add: eq algebra_simps)
  qed
qed

lemma egcd_dvd:
  "fst (egcd a b) dvd a \<and> fst (egcd a b) dvd b"
proof (induction a b rule: egcd.induct)
  case (1 a b)
  show ?case
  proof (cases "b = 0")
    case True
    then show ?thesis by simp
  next
    case False
    obtain g x1 y1 where r: "egcd b (a mod b) = (g, x1, y1)" by (cases "egcd b (a mod b)") auto
    with "1.IH" [OF False] have "g dvd b" "g dvd a mod b" by simp_all
    then have "g dvd a" by (metis dvd_mod_iff)
    with \<open>g dvd b\<close> False r show ?thesis by (simp add: egcd_step)
  qed
qed

lemma egcd_abs_gcd: "\<bar>fst (egcd a b)\<bar> = gcd a b"
proof -
  obtain g x y where r: "egcd a b = (g, x, y)" by (cases "egcd a b") auto
  have "gcd a b dvd g" using egcd_bezout [OF r] by (metis dvd_add gcd_dvd1 gcd_dvd2 dvd_mult2)
  moreover have "g dvd gcd a b" using egcd_dvd [of a b] r by simp
  ultimately have "\<bar>g\<bar> dvd gcd a b" and "gcd a b dvd \<bar>g\<bar>" by simp_all
  then have "\<bar>g\<bar> = gcd a b" by (intro zdvd_antisym_nonneg) simp_all
  then show ?thesis using r by simp
qed

lemma egcd_step_fst:
  "b \<noteq> 0 \<Longrightarrow> fst (egcd a b) = fst (egcd b (a mod b))"
  by (cases "egcd b (a mod b)") (simp add: egcd_step)

lemma egcd_nonneg:
  "0 \<le> a \<Longrightarrow> 0 \<le> b \<Longrightarrow> 0 \<le> fst (egcd a b)"
proof (induction a b rule: egcd.induct)
  case (1 a b)
  show ?case
  proof (cases "b = 0")
    case True
    with "1.prems" show ?thesis by simp
  next
    case False
    have "0 \<le> a mod b" using False "1.prems" by simp
    then have "0 \<le> fst (egcd b (a mod b))" using "1.IH" [OF False] "1.prems" by simp
    with False show ?thesis by (simp add: egcd_step_fst)
  qed
qed

lemma egcd_pos_modulus:
  assumes "0 < m"
  shows "fst (egcd a m) = gcd a m"
proof -
  have "fst (egcd a m) = fst (egcd m (a mod m))"
    using assms by (simp add: egcd_step_fst)
  moreover have "0 \<le> fst (egcd m (a mod m))" using assms by (simp add: egcd_nonneg)
  ultimately have "0 \<le> fst (egcd a m)" by simp
  then show ?thesis using egcd_abs_gcd [of a m] by simp
qed

section \<open>Properties of modinv\<close>

definition is_inverse_mod :: "int \<Rightarrow> int \<Rightarrow> int \<Rightarrow> bool" where
  "is_inverse_mod a m x \<longleftrightarrow> 0 \<le> x \<and> x < m \<and> (a * x) mod m = 1 mod m"

lemma modinv_Inr:
  assumes "0 < m" and "modinv a m = Inr x"
  shows "is_inverse_mod a m x"
proof -
  obtain g x0 y0 where r: "egcd a m = (g, x0, y0)" by (cases "egcd a m") auto
  with assms(2) have g: "g = 1" and x: "x = x0 mod m"
    by (auto simp: modinv_def split: if_splits)
  have "a * x0 + m * y0 = 1" using egcd_bezout [OF r] g by simp
  then have "(a * x0) mod m = 1 mod m" by (metis mod_mult_self2)
  then have "(a * x) mod m = 1 mod m" by (simp add: x mod_mult_right_eq)
  then show ?thesis using assms(1) by (simp add: is_inverse_mod_def x)
qed

lemma inverse_mod_coprime:
  fixes a x m :: int
  assumes "(a * x) mod m = 1 mod m"
  shows "gcd a m = 1"
proof -
  have "m dvd a * x - 1" using assms by (simp add: mod_eq_dvd_iff)
  then obtain k where "a * x - 1 = m * k" by (auto elim: dvdE)
  then have "a * x + m * (- k) = 1" by simp
  then have "gcd a m dvd 1" by (metis dvd_add dvd_mult2 gcd_dvd1 gcd_dvd2)
  then show ?thesis by simp
qed

lemma modinv_Inl_iff:
  assumes "0 < m"
  shows "modinv a m = Inl err \<longleftrightarrow> err = NoInverse \<and> gcd a m \<noteq> 1"
  using egcd_pos_modulus [OF assms, of a]
  by (auto simp: modinv_def split: prod.splits)

lemma inverse_mod_unique:
  assumes "is_inverse_mod a m x" and "is_inverse_mod a m y"
  shows "x = y"
proof -
  have ax: "(a * x) mod m = 1 mod m" and ay: "(a * y) mod m = 1 mod m"
    using assms by (simp_all add: is_inverse_mod_def)
  have "x mod m = (x * ((a * y) mod m)) mod m" using ay by (simp add: mod_mult_right_eq)
  also have "\<dots> = (y * ((a * x) mod m)) mod m" by (simp add: mod_mult_right_eq ac_simps)
  also have "\<dots> = y mod m" using ax by (simp add: mod_mult_right_eq)
  finally show ?thesis using assms by (simp add: is_inverse_mod_def)
qed

section \<open>Properties of the exponentiation\<close>

lemma mod_exp_eq [simp]: "mod_exp b e m = b ^ e mod m"
proof (induction b e m rule: mod_exp.induct)
  case (1 b e m)
  show ?case
  proof (cases "e = 0")
    case True
    then show ?thesis by (simp add: mod_exp.simps)
  next
    case False
    have IH: "mod_exp ((b * b) mod m) (e div 2) m = (b * b) ^ (e div 2) mod m"
      using "1.IH" [OF False] by (simp add: power_mod)
    have sq: "(b * b) ^ (e div 2) = b ^ (2 * (e div 2))"
      by (simp add: power_mult power2_eq_square)
    show ?thesis
    proof (cases "even e")
      case True
      then show ?thesis using False IH sq by (subst mod_exp.simps) simp
    next
      case odd: False
      then have "e = Suc (2 * (e div 2))" by presburger
      then have "b ^ e = b * b ^ (2 * (e div 2))" by (metis power_Suc)
      then show ?thesis using False odd IH sq
        by (subst mod_exp.simps) (simp add: mod_mult_right_eq)
    qed
  qed
qed

lemma py_pow_nonneg_exp [simp]:
  assumes "1 < m" and "0 \<le> e"
  shows "py_pow b e m = Inr (b ^ nat e mod m)"
  using assms by (simp add: py_pow_def)

lemma py_pow_range:
  assumes "1 < m" and "0 \<le> e" and "py_pow b e m = Inr v"
  shows "0 \<le> v \<and> v < m"
proof -
  have "v = b ^ nat e mod m" using assms by simp
  then show ?thesis using assms(1) by simp
qed

section \<open>Component properties\<close>

text \<open>
  C13: \<open>egcd\<close> returns Bezout coefficients: \<open>a * x + b * y = g\<close>, and \<open>g\<close> is the
  gcd up to sign; for a positive second argument it is the gcd itself.
\<close>

theorem egcd_correct:
  "case egcd a b of (g, x, y) \<Rightarrow>
     a * x + b * y = g \<and> \<bar>g\<bar> = gcd a b \<and> (0 < b \<longrightarrow> g = gcd a b)"
proof -
  obtain g x y where r: "egcd a b = (g, x, y)" by (cases "egcd a b") auto
  have "a * x + b * y = g" by (rule egcd_bezout [OF r])
  moreover have "\<bar>g\<bar> = gcd a b" using egcd_abs_gcd [of a b] r by simp
  moreover have "0 < b \<longrightarrow> g = gcd a b" using egcd_pos_modulus [of b a] r by simp
  ultimately show ?thesis using r by simp
qed

theorem egcd_correct_witness:
  "egcd 240 46 = (2, -9, 47) \<and> 240 * (-9) + 46 * 47 = (2::int) \<and> gcd (240::int) 46 = 2"
proof -
  have e: "egcd 240 46 = (2, -9, 47)" by (simp add: egcd_step)
  from egcd_correct [of 240 46] show ?thesis unfolding e by simp
qed

text \<open>
  C6: \<open>modinv a m\<close> implements its contract for every positive modulus: it returns
  \<open>x\<close> exactly when \<open>x\<close> is the inverse of \<open>a\<close> in \<open>[0, m)\<close>, and it fails,
  with \<open>NoInverse\<close> only, exactly when \<open>gcd a m \<noteq> 1\<close>.
\<close>

theorem modinv_refines_spec:
  assumes "0 < m"
  shows "(modinv a m = Inr x \<longleftrightarrow> is_inverse_mod a m x)
    \<and> (modinv a m = Inl err \<longleftrightarrow> err = NoInverse \<and> gcd a m \<noteq> 1)"
proof (intro conjI iffI)
  assume "modinv a m = Inr x"
  then show "is_inverse_mod a m x" by (rule modinv_Inr [OF assms])
next
  assume inv: "is_inverse_mod a m x"
  then have "(a * x) mod m = 1 mod m" by (simp add: is_inverse_mod_def)
  then have "gcd a m = 1" by (rule inverse_mod_coprime)
  then obtain x' where r: "modinv a m = Inr x'"
    using modinv_Inl_iff [OF assms] by (cases "modinv a m") auto
  have "x' = x" using inverse_mod_unique [OF modinv_Inr [OF assms r] inv] .
  then show "modinv a m = Inr x" using r by simp
qed (use modinv_Inl_iff [OF assms] in simp_all)

theorem modinv_refines_spec_witness:
  "is_inverse_mod 3 7 5 \<and> modinv 3 7 = Inr 5"
proof -
  have i: "is_inverse_mod 3 7 5" by (simp add: is_inverse_mod_def)
  then show ?thesis using modinv_refines_spec [of 7 3 5 NoInverse] by simp
qed


end
