(* ===== verification/Primality.thy ===== *)
theory Primality
  imports ModArith
begin

text \<open>
  The PrimalityTester component: \<^verbatim>\<open>is_probable_prime(n, k)\<close> of \<^verbatim>\<open>src/RSA.py\<close>
  (lines 7--30).  Each loop of the code is one definition:
  \<^item> \<open>trial_division\<close>: \<^verbatim>\<open>for p in small_primes: if n % p == 0: return n == p\<close>
    (\<open>None\<close> when the loop falls through);
  \<^item> \<open>strip_twos\<close>: \<^verbatim>\<open>while d % 2 == 0: d //= 2; r += 1\<close>, a loop that never ends
    for \<open>d = 0\<close>, hence a \<^theory_text>\<open>partial_function (option)\<close>;
  \<^item> \<open>square_loop\<close>: the inner \<^verbatim>\<open>for _ in range(r - 1)\<close> with its \<^verbatim>\<open>break\<close>
    (\<open>True\<close> when it breaks, \<open>False\<close> when its \<^verbatim>\<open>else\<close> runs);
  \<^item> \<open>mr_round\<close>: one round for the witness \<open>a\<close> (\<open>True\<close>: \<^verbatim>\<open>continue\<close>,
    \<open>False\<close>: \<^verbatim>\<open>return False\<close>);
  \<^item> \<open>mr_loop\<close>: the outer \<^verbatim>\<open>for _ in range(k)\<close>, drawing each witness
    \<^verbatim>\<open>secrets.randbelow(n - 3) + 2\<close> from the random tape.
  The calls \<^verbatim>\<open>pow(a, d, n)\<close> and \<^verbatim>\<open>pow(x, 2, n)\<close> are made with \<open>n \<ge> 31\<close> and
  \<open>d \<ge> 1\<close>, where the built-in is \<open>mod_exp\<close> (lemma \<open>py_pow_nonneg_exp\<close>).
\<close>

definition small_primes :: "int list" where
  "small_primes = [2, 3, 5, 7, 11, 13, 17, 19, 23, 29]"

fun trial_division :: "int \<Rightarrow> int list \<Rightarrow> bool option" where
  "trial_division n [] = None"
| "trial_division n (p # ps) = (if n mod p = 0 then Some (n = p) else trial_division n ps)"

partial_function (option) strip_twos :: "int \<Rightarrow> nat \<Rightarrow> (int \<times> nat) option" where
  "strip_twos d r = (if d mod 2 = 0 then strip_twos (d div 2) (Suc r) else Some (d, r))"

fun square_loop :: "int \<Rightarrow> int \<Rightarrow> nat \<Rightarrow> bool" where
  "square_loop n x 0 = False"
| "square_loop n x (Suc i) =
     (let x' = mod_exp x 2 n in if x' = n - 1 then True else square_loop n x' i)"

definition mr_round :: "int \<Rightarrow> int \<Rightarrow> nat \<Rightarrow> int \<Rightarrow> bool" where
  "mr_round n d r a =
     (let x = mod_exp a (nat d) n in
      if x = 1 \<or> x = n - 1 then True else square_loop n x (r - 1))"

fun mr_loop :: "int \<Rightarrow> int \<Rightarrow> nat \<Rightarrow> nat \<Rightarrow> rand_src \<Rightarrow> bool \<times> rand_src" where
  "mr_loop n d r 0 s = (True, s)"
| "mr_loop n d r (Suc k) s =
     (case randbelow (n - 3) s of (a0, s') \<Rightarrow>
        if mr_round n d r (a0 + 2) then mr_loop n d r k s' else (False, s'))"

definition is_probable_prime :: "int \<Rightarrow> nat \<Rightarrow> rand_src \<Rightarrow> (bool \<times> rand_src) option" where
  "is_probable_prime n k s =
     (if n < 2 then Some (False, s)
      else (case trial_division n small_primes of
              Some b \<Rightarrow> Some (b, s)
            | None \<Rightarrow> (case strip_twos (n - 1) 0 of
                        None \<Rightarrow> None
                      | Some (d, r) \<Rightarrow> Some (mr_loop n d r k s))))"

text \<open>The spec's default round count \<^verbatim>\<open>k = 16\<close>.\<close>

abbreviation mr_rounds_default :: nat where
  "mr_rounds_default \<equiv> 16"

section \<open>The loop that halves d\<close>

lemma strip_twos_odd [simp]: "d mod 2 \<noteq> 0 \<Longrightarrow> strip_twos d r = Some (d, r)"
  by (simp add: strip_twos.simps)

lemma strip_twos_even: "d mod 2 = 0 \<Longrightarrow> strip_twos d r = strip_twos (d div 2) (Suc r)"
  by (simp add: strip_twos.simps)

lemma strip_twos_returns:
  assumes "0 < d"
  shows "\<exists>d' r'. strip_twos d r = Some (d', r') \<and> d * 2 ^ r = d' * 2 ^ r'
           \<and> odd d' \<and> 0 < d' \<and> r \<le> r' \<and> (even d \<longrightarrow> r < r')"
  using assms
proof (induction "nat d" arbitrary: d r rule: less_induct)
  case less
  show ?case
  proof (cases "d mod 2 = 0")
    case False
    then show ?thesis using less.prems by (auto simp: even_iff_mod_2_eq_zero)
  next
    case True
    have pos: "0 < d div 2" using True less.prems by auto
    have lt: "nat (d div 2) < nat d" using less.prems by simp
    obtain d' r' where r: "strip_twos (d div 2) (Suc r) = Some (d', r')"
      and eq: "d div 2 * 2 ^ Suc r = d' * 2 ^ r'" and rest: "odd d'" "0 < d'" "Suc r \<le> r'"
      using less.hyps [OF lt pos, of "Suc r"] by blast
    have "d * 2 ^ r = d div 2 * 2 ^ Suc r" using True by (simp add: dvd_eq_mod_eq_0 [symmetric])
    then show ?thesis using True r eq rest by (auto simp: strip_twos_even)
  qed
qed

lemma strip_twos_zero_diverges: "strip_twos 0 r = None"
proof -
  have "d \<noteq> 0" if ret: "strip_twos d r = Some y" for d r y
  proof (rule strip_twos.raw_induct [where P = "\<lambda>d r y. d \<noteq> 0", OF _ ret])
    fix f :: "int \<Rightarrow> nat \<Rightarrow> (int \<times> nat) option" and d r y
    assume IH: "\<And>d r y. f d r = Some y \<Longrightarrow> d \<noteq> 0"
      and eq: "(if d mod 2 = 0 then f (d div 2) (Suc r) else Some (d, r)) = Some y"
    show "d \<noteq> 0"
    proof (cases "d mod 2 = 0")
      case True
      with eq have "f (d div 2) (Suc r) = Some y" by simp
      then have "d div 2 \<noteq> 0" by (rule IH)
      then show ?thesis by auto
    next
      case False
      then show ?thesis by auto
    qed
  qed
  then show ?thesis by (cases "strip_twos 0 r") auto
qed

section \<open>The squaring loop\<close>

lemma pow_two_Suc_mod:
  "x ^ (2 ^ Suc i) mod n = (x ^ (2 ^ i) mod n) ^ 2 mod (n::int)"
proof -
  have "x ^ (2 ^ Suc i) = (x ^ (2 ^ i)) ^ 2" by (simp add: power_mult [symmetric] mult.commute)
  then show ?thesis by (simp add: power_mod)
qed

lemma pow_two_shift_mod:
  "(x ^ 2 mod n) ^ (2 ^ i) mod n = x ^ (2 ^ Suc i) mod (n::int)"
proof -
  have "x ^ (2 ^ Suc i) = (x ^ 2) ^ (2 ^ i)" by (simp add: power_mult [symmetric])
  then show ?thesis by (simp add: power_mod)
qed

text \<open>When the loop runs to its \<^verbatim>\<open>else\<close>, none of the squares it computed was \<open>n - 1\<close>.\<close>

lemma square_loop_False:
  assumes "\<not> square_loop n x j" and "1 \<le> i" and "i \<le> j"
  shows "x ^ (2 ^ i) mod n \<noteq> n - 1"
  using assms
proof (induction j arbitrary: x i)
  case 0
  then show ?case by simp
next
  case (Suc j)
  have stop: "x ^ 2 mod n \<noteq> n - 1" and rest: "\<not> square_loop n (x ^ 2 mod n) j"
    using Suc.prems(1) by (simp_all add: Let_def split: if_splits)
  show ?case
  proof (cases i)
    case 0
    then show ?thesis using Suc.prems(2) by simp
  next
    case (Suc i')
    show ?thesis
    proof (cases i')
      case 0
      then show ?thesis using stop \<open>i = Suc i'\<close> by simp
    next
      case (Suc i'')
      then have "1 \<le> i'" "i' \<le> j" using \<open>i = Suc i'\<close> Suc.prems(3) by simp_all
      from Suc.IH [OF rest this] have "(x ^ 2 mod n) ^ (2 ^ i') mod n \<noteq> n - 1" .
      then show ?thesis unfolding pow_two_shift_mod \<open>i = Suc i'\<close> .
    qed
  qed
qed

text \<open>
  The heart of Miller--Rabin: modulo a prime, a chain of squares that never passes
  through \<open>n - 1\<close> and does not start at \<open>\<plusminus>1\<close> never reaches \<open>1\<close>.
\<close>

lemma square_chain_avoids_one:
  assumes "is_prime n" and "x mod n \<noteq> 1" and "x mod n \<noteq> n - 1"
    and avoid: "\<And>i. 1 \<le> i \<Longrightarrow> i < r \<Longrightarrow> x ^ (2 ^ i) mod n \<noteq> n - 1"
  shows "i \<le> r \<Longrightarrow> x ^ (2 ^ i) mod n \<noteq> 1 \<and> (i < r \<longrightarrow> x ^ (2 ^ i) mod n \<noteq> n - 1)"
proof (induction i)
  case 0
  then show ?case using assms(2,3) by simp
next
  case (Suc i)
  let ?y = "x ^ (2 ^ i) mod n"
  have y: "?y \<noteq> 1" "?y \<noteq> n - 1" using Suc by auto
  have n1: "1 < n" using is_prime_gt1 [OF assms(1)] .
  have "?y ^ 2 mod n \<noteq> 1"
  proof
    assume "?y ^ 2 mod n = 1"
    then have "?y mod n = 1 \<or> ?y mod n = n - 1" by (rule sqrt_one_mod_prime [OF assms(1)])
    then show False using y n1 by simp
  qed
  then show ?case using avoid [of "Suc i"] by (simp add: pow_two_Suc_mod del: power_Suc)
qed

section \<open>Miller--Rabin never rejects a prime\<close>

lemma mr_round_prime:
  assumes "is_prime n" and "n - 1 = d * 2 ^ r" and "0 < d" and "0 < r"
    and "1 \<le> a" and "a < n"
  shows "mr_round n d r a"
proof (rule ccontr)
  assume fail: "\<not> mr_round n d r a"
  let ?x = "a ^ nat d mod n"
  have n1: "1 < n" using is_prime_gt1 [OF assms(1)] .
  have x: "?x \<noteq> 1" "?x \<noteq> n - 1" and loop: "\<not> square_loop n ?x (r - 1)"
    using fail by (auto simp: mr_round_def Let_def split: if_splits)
  have avoid: "?x ^ (2 ^ i) mod n \<noteq> n - 1" if "1 \<le> i" "i < r" for i
    using square_loop_False [OF loop] that by simp
  have "?x ^ (2 ^ r) mod n \<noteq> 1"
    using square_chain_avoids_one [OF assms(1) _ _ avoid, of r] x n1 by simp
  moreover have "?x ^ (2 ^ r) mod n = 1"
  proof -
    have "nat (n - 1) = nat (d * 2 ^ r)" using assms(2) by simp
    also have "\<dots> = nat d * 2 ^ r" using assms(3) by (simp add: nat_mult_distrib nat_power_eq)
    finally have "nat d * 2 ^ r = nat n - 1" using n1 by (simp add: nat_diff_distrib)
    then have "?x ^ (2 ^ r) mod n = a ^ (nat n - 1) mod n"
      by (simp add: power_mod power_mult [symmetric])
    moreover have "\<not> n dvd a" using assms(5,6) by (auto dest: zdvd_imp_le)
    ultimately show ?thesis using fermat_coprime [OF assms(1)] by simp
  qed
  ultimately show False by simp
qed

lemma mr_loop_prime:
  assumes "is_prime n" and "3 < n" and "n - 1 = d * 2 ^ r" and "0 < d" and "0 < r"
  shows "\<exists>s'. mr_loop n d r k s = (True, s')"
proof (induction k arbitrary: s)
  case 0
  then show ?case by simp
next
  case (Suc k)
  obtain a0 s' where draw: "randbelow (n - 3) s = (a0, s')" by (cases "randbelow (n - 3) s") auto
  have "0 \<le> a0 \<and> a0 < n - 3" using randbelow_range [of "n - 3" s] draw assms(2) by simp
  then have "mr_round n d r (a0 + 2)" using mr_round_prime [OF assms(1,3,4,5)] by simp
  then show ?case using draw Suc.IH [of s'] by simp
qed

section \<open>Trial division\<close>

lemma trial_division_Some:
  "trial_division n ps = Some b \<Longrightarrow> \<exists>p \<in> set ps. p dvd n \<and> b = (n = p)"
  by (induction ps) (auto split: if_splits)

lemma trial_division_None:
  "trial_division n ps = None \<Longrightarrow> p \<in> set ps \<Longrightarrow> \<not> p dvd n"
  by (induction ps) (auto split: if_splits)

lemma small_primes_prime: "\<forall>p \<in> set small_primes. is_prime p"
  by code_simp

lemma small_factor_table: "\<forall>m \<in> {2..30::int}. \<exists>p \<in> set small_primes. p dvd m"
  by code_simp

lemma trial_division_exact:
  assumes "2 \<le> n" and "trial_division n small_primes = Some b"
  shows "b = is_prime n"
proof -
  obtain p where p: "p \<in> set small_primes" "p dvd n" and b: "b = (n = p)"
    using trial_division_Some [OF assms(2)] by blast
  have pp: "is_prime p" using small_primes_prime p(1) by blast
  show ?thesis
  proof (cases "n = p")
    case True
    then show ?thesis using b pp by simp
  next
    case False
    have "1 < p" using is_prime_gt1 [OF pp] .
    moreover have "p \<le> n" using p(2) assms(1) by (simp add: zdvd_imp_le)
    ultimately have "p \<in> {2..<n}" using False by simp
    then have "\<not> is_prime n" using p(2) by (auto simp: is_prime_def)
    then show ?thesis using b False by simp
  qed
qed

text \<open>No factor up to 29 leaves only primes below \<open>31 ^ 2 = 961\<close>.\<close>

lemma no_small_factor_prime:
  assumes "2 \<le> n" and "n < 961" and nf: "\<And>p. p \<in> set small_primes \<Longrightarrow> \<not> p dvd n"
  shows "is_prime n"
proof (rule ccontr)
  assume "\<not> is_prime n"
  then obtain a where a: "2 \<le> a" "a < n" "a dvd n" using assms(1) by (auto simp: is_prime_def)
  then obtain b where nab: "n = a * b" by (auto elim: dvdE)
  have "2 \<le> b"
  proof (rule ccontr)
    assume "\<not> 2 \<le> b"
    then have "b \<le> 1" by simp
    moreover have "0 < b" using nab a(1) assms(1) by (intro zero_less_mult_pos [of a b]) simp_all
    ultimately have "b = 1" by simp
    then show False using nab a(2) by simp
  qed
  define m where "m = min a b"
  have "m * m \<le> a * b" unfolding m_def using a(1) \<open>2 \<le> b\<close>
    by (simp add: min_def mult_mono)
  then have "m * m < 31 * 31" using nab assms(2) by simp
  then have "m < 31"
  proof (rule contrapos_pp)
    assume "\<not> m < 31"
    then have "31 * 31 \<le> m * m" by (intro mult_mono) simp_all
    then show "\<not> m * m < 31 * 31" by simp
  qed
  moreover have "2 \<le> m" unfolding m_def using a(1) \<open>2 \<le> b\<close> by simp
  ultimately have "m \<in> {2..30}" by simp
  then obtain p where "p \<in> set small_primes" "p dvd m" using small_factor_table by blast
  moreover have "m dvd n" unfolding m_def nab by (simp add: min_def)
  ultimately show False using nf dvd_trans by blast
qed

lemma mr_branch:
  assumes "2 \<le> n" and "trial_division n small_primes = None"
  shows "\<exists>d r. strip_twos (n - 1) 0 = Some (d, r) \<and> n - 1 = d * 2 ^ r \<and> 0 < d \<and> 0 < r \<and> 3 < n"
proof -
  have n2: "\<not> 2 dvd n" and n3: "\<not> 3 dvd n"
    using trial_division_None [OF assms(2)] by (simp_all add: small_primes_def)
  then have n3': "3 < n" using assms(1) by (cases "n = 2 \<or> n = 3") auto
  have ev: "even (n - 1)" using n2 by simp
  have "0 < n - 1" using assms(1) by simp
  then obtain d r where st: "strip_twos (n - 1) 0 = Some (d, r)" and eq: "(n - 1) * 2 ^ 0 = d * 2 ^ r"
    and d: "0 < d" and r: "even (n - 1) \<longrightarrow> 0 < r"
    using strip_twos_returns [of "n - 1" 0] by blast
  have "0 < r" using r ev by blast
  then show ?thesis using st eq d n3' by auto
qed

section \<open>Soundness and exactness\<close>

lemma mr_accepts_prime:
  assumes "is_prime n"
  shows "\<exists>s'. is_probable_prime n k s = Some (True, s')"
proof -
  have n2: "2 \<le> n" using is_prime_gt1 [OF assms] by simp
  show ?thesis
  proof (cases "trial_division n small_primes")
    case (Some b)
    then show ?thesis using trial_division_exact [OF n2 Some] assms n2
      by (simp add: is_probable_prime_def)
  next
    case None
    obtain d r where st: "strip_twos (n - 1) 0 = Some (d, r)" and dr: "n - 1 = d * 2 ^ r"
      "0 < d" "0 < r" "3 < n"
      using mr_branch [OF n2 None] by blast
    obtain s' where "mr_loop n d r k s = (True, s')"
      using mr_loop_prime [OF assms dr(4) dr(1-3)] by blast
    then show ?thesis using n2 None st by (simp add: is_probable_prime_def)
  qed
qed

lemma mr_exact_below_961:
  assumes "n < 961"
  shows "\<exists>s'. is_probable_prime n k s = Some (is_prime n, s')"
proof (cases "n < 2")
  case True
  then show ?thesis by (simp add: is_probable_prime_def is_prime_def)
next
  case False
  then have n2: "2 \<le> n" by simp
  show ?thesis
  proof (cases "trial_division n small_primes")
    case (Some b)
    then show ?thesis using trial_division_exact [OF n2 Some] n2
      by (simp add: is_probable_prime_def)
  next
    case None
    have "is_prime n"
      using no_small_factor_prime [OF n2 assms] trial_division_None [OF None] by blast
    then show ?thesis using mr_accepts_prime [of n k s] by simp
  qed
qed

section \<open>Component properties\<close>

text \<open>
  C5: \<open>is_probable_prime\<close> never rejects a prime: for every prime \<open>n\<close>, every round
  count \<open>k\<close> and every outcome of the random source, it returns \<open>True\<close>.
\<close>

theorem is_probable_prime_sound:
  assumes "is_prime n"
  shows "\<exists>s'. is_probable_prime n k s = Some (True, s')"
  using mr_accepts_prime [OF assms] .

theorem is_probable_prime_sound_witness:
  "is_prime 31 \<and> (\<exists>s'. is_probable_prime 31 16 (sconst 0) = Some (True, s'))"
proof -
  have "is_prime 31" by code_simp
  then show ?thesis using is_probable_prime_sound [of 31 16 "sconst 0"] by simp
qed

text \<open>
  C12: below \<open>31 ^ 2 = 961\<close> the test is exact whatever the random source draws:
  trial division by the primes up to 29 decides every such \<open>n\<close> that it does not
  hand to Miller--Rabin, and those are primes.
\<close>

theorem is_probable_prime_exact_below_961:
  assumes "n < 961"
  shows "\<exists>s'. is_probable_prime n k s = Some (is_prime n, s')"
  using mr_exact_below_961 [OF assms] .

theorem is_probable_prime_exact_below_961_witness:
  "(527::int) < 961 \<and> (\<exists>s'. is_probable_prime 527 16 (sconst 7) = Some (False, s'))"
proof -
  have "\<not> is_prime 527" by code_simp
  then show ?thesis using is_probable_prime_exact_below_961 [of 527 16 "sconst 7"] by simp
qed

text \<open>
  C17: \<open>is_probable_prime\<close> returns for every input: the halving loop, which would spin
  for \<open>d = 0\<close> (\<open>strip_twos_zero_diverges\<close>), is only entered with \<open>n - 1 \<ge> 1\<close>.
\<close>

theorem is_probable_prime_returns:
  "\<exists>b s'. is_probable_prime n k s = Some (b, s')"
proof (cases "n < 2 \<or> trial_division n small_primes \<noteq> None")
  case True
  then show ?thesis by (auto simp: is_probable_prime_def)
next
  case False
  then have n2: "2 \<le> n" and td: "trial_division n small_primes = None" by auto
  obtain d r where "strip_twos (n - 1) 0 = Some (d, r)" using mr_branch [OF n2 td] by blast
  then show ?thesis using n2 td by (simp add: is_probable_prime_def split: prod.splits)
qed

end
