(* ===== verification/Codec.thy ===== *)
theory Codec
  imports Prelude
begin

text \<open>
  The Codec component: \<^verbatim>\<open>text_to_int\<close> and \<^verbatim>\<open>int_to_text\<close> of \<^verbatim>\<open>src/RSA.py\<close>
  (lines 76--81) with the library calls they make spelled out:
  \<^item> \<^verbatim>\<open>str.encode('utf-8')\<close> is \<open>utf8_encode\<close>; a lone surrogate code point raises
    \<^verbatim>\<open>UnicodeEncodeError\<close> (\<open>EncodeError\<close>);
  \<^item> \<^verbatim>\<open>bytes.decode('utf-8', errors='strict')\<close> is \<open>utf8_decode\<close>, which accepts
    exactly the well-formed UTF-8 sequences (no overlong forms, no surrogates, nothing
    above U+10FFFF) and raises \<open>DecodeError\<close> on anything else;
  \<^item> \<^verbatim>\<open>int.from_bytes(b, 'big')\<close> is \<open>from_bytes\<close>;
  \<^item> \<^verbatim>\<open>int.to_bytes(len, 'big')\<close> is \<open>to_bytes\<close>, with its \<^verbatim>\<open>OverflowError\<close> for a
    negative integer or one that does not fit in \<open>len\<close> bytes;
  \<^item> \<^verbatim>\<open>int.bit_length()\<close> is \<open>bit_length\<close>.
\<close>

section \<open>UTF-8\<close>

definition is_surrogate :: "nat \<Rightarrow> bool" where
  "is_surrogate c \<longleftrightarrow> 0xD800 \<le> c \<and> c \<le> 0xDFFF"

text \<open>The byte with a given value below 256.\<close>

definition byte_of :: "nat \<Rightarrow> byte" where
  "byte_of n = of_nat n"

definition utf8_encode_char :: "nat \<Rightarrow> error + byte list" where
  "utf8_encode_char c =
     (if c < 0x80 then Inr [byte_of c]
      else if c < 0x800 then Inr [byte_of (0xC0 + c div 64), byte_of (0x80 + c mod 64)]
      else if c < 0x10000 then
        (if is_surrogate c then Inl EncodeError
         else Inr [byte_of (0xE0 + c div 4096), byte_of (0x80 + c div 64 mod 64),
                   byte_of (0x80 + c mod 64)])
      else if c < 0x110000 then
        Inr [byte_of (0xF0 + c div 262144), byte_of (0x80 + c div 4096 mod 64),
             byte_of (0x80 + c div 64 mod 64), byte_of (0x80 + c mod 64)]
      else Inl EncodeError)"

fun utf8_encode :: "pystr \<Rightarrow> error + byte list" where
  "utf8_encode [] = Inr []"
| "utf8_encode (c # cs) =
     (case utf8_encode_char c of
        Inl e \<Rightarrow> Inl e
      | Inr b \<Rightarrow> (case utf8_encode cs of Inl e \<Rightarrow> Inl e | Inr bs \<Rightarrow> Inr (b @ bs)))"

definition is_cont :: "byte \<Rightarrow> bool" where
  "is_cont b \<longleftrightarrow> 0x80 \<le> unat b \<and> unat b < 0xC0"

definition cons_char :: "nat \<Rightarrow> error + pystr \<Rightarrow> error + pystr" where
  "cons_char c r = (case r of Inl e \<Rightarrow> Inl e | Inr s \<Rightarrow> Inr (c # s))"

text \<open>One code point of the strict decoder: its value and the bytes after it.\<close>

definition decode_char :: "byte list \<Rightarrow> (nat \<times> byte list) option" where
  "decode_char bs =
     (case bs of
        [] \<Rightarrow> None
      | b0 # r0 \<Rightarrow>
          (let c0 = unat b0 in
           if c0 < 0x80 then Some (c0, r0)
           else if 0xC2 \<le> c0 \<and> c0 < 0xE0 then
             (case r0 of
                [] \<Rightarrow> None
              | b1 # r1 \<Rightarrow>
                  if is_cont b1 then Some ((c0 - 0xC0) * 64 + (unat b1 - 0x80), r1) else None)
           else if 0xE0 \<le> c0 \<and> c0 < 0xF0 then
             (case r0 of
                b1 # b2 # r2 \<Rightarrow>
                  (let c = (c0 - 0xE0) * 4096 + (unat b1 - 0x80) * 64 + (unat b2 - 0x80) in
                   if is_cont b1 \<and> is_cont b2 \<and> 0x800 \<le> c \<and> \<not> is_surrogate c
                   then Some (c, r2) else None)
              | _ \<Rightarrow> None)
           else if 0xF0 \<le> c0 \<and> c0 < 0xF5 then
             (case r0 of
                b1 # b2 # b3 # r3 \<Rightarrow>
                  (let c = (c0 - 0xF0) * 262144 + (unat b1 - 0x80) * 4096
                           + (unat b2 - 0x80) * 64 + (unat b3 - 0x80) in
                   if is_cont b1 \<and> is_cont b2 \<and> is_cont b3 \<and> 0x10000 \<le> c \<and> c < 0x110000
                   then Some (c, r3) else None)
              | _ \<Rightarrow> None)
           else None))"

lemma decode_char_shorter:
  "decode_char bs = Some (c, rest) \<Longrightarrow> length rest < length bs"
  by (auto simp: decode_char_def Let_def split: list.splits if_splits)

function utf8_decode :: "byte list \<Rightarrow> error + pystr" where
  "utf8_decode bs =
     (if bs = [] then Inr []
      else (case decode_char bs of
              None \<Rightarrow> Inl DecodeError
            | Some (c, rest) \<Rightarrow> cons_char c (utf8_decode rest)))"
  by pat_completeness auto
termination
  by (relation "measure length") (auto dest: decode_char_shorter)

declare utf8_decode.simps [simp del]

section \<open>Integers and big-endian bytes\<close>

definition from_bytes :: "byte list \<Rightarrow> int" where
  "from_bytes bs = foldl (\<lambda>acc b. acc * 256 + uint b) 0 bs"

fun be_digits :: "nat \<Rightarrow> int \<Rightarrow> byte list" where
  "be_digits 0 i = []"
| "be_digits (Suc k) i = be_digits k (i div 256) @ [word_of_int (i mod 256)]"

definition to_bytes :: "int \<Rightarrow> nat \<Rightarrow> error + byte list" where
  "to_bytes i len = (if i < 0 \<or> 256 ^ len \<le> i then Inl OverflowError else Inr (be_digits len i))"

fun bit_length_nat :: "nat \<Rightarrow> nat" where
  "bit_length_nat n = (if n = 0 then 0 else Suc (bit_length_nat (n div 2)))"

declare bit_length_nat.simps [simp del]

definition bit_length :: "int \<Rightarrow> nat" where
  "bit_length i = bit_length_nat (nat \<bar>i\<bar>)"

section \<open>The codec\<close>

definition text_to_int :: "pystr \<Rightarrow> error + int" where
  "text_to_int s = (case utf8_encode s of Inl e \<Rightarrow> Inl e | Inr bs \<Rightarrow> Inr (from_bytes bs))"

definition int_to_text :: "int \<Rightarrow> error + pystr" where
  "int_to_text i =
     (let l = (bit_length i + 7) div 8; len = (if l = 0 then 1 else l) in
      case to_bytes i len of Inl e \<Rightarrow> Inl e | Inr b \<Rightarrow> utf8_decode b)"

section \<open>Big-endian conversion\<close>

lemma foldl_from_bytes:
  "foldl (\<lambda>acc b. acc * 256 + uint b) a bs = a * 256 ^ length bs + from_bytes bs"
proof (induction bs arbitrary: a)
  case Nil
  then show ?case by (simp add: from_bytes_def)
next
  case (Cons b bs)
  have "from_bytes (b # bs) = uint b * 256 ^ length bs + from_bytes bs"
    using Cons.IH [of "uint b"] by (simp add: from_bytes_def)
  then show ?case using Cons.IH [of "a * 256 + uint b"] by (simp add: algebra_simps)
qed

lemma from_bytes_Cons: "from_bytes (b # bs) = uint b * 256 ^ length bs + from_bytes bs"
  using foldl_from_bytes [of "uint b" bs] by (simp add: from_bytes_def)

lemma from_bytes_snoc [simp]: "from_bytes (bs @ [b]) = from_bytes bs * 256 + uint b"
  by (simp add: from_bytes_def)

lemma from_bytes_Nil [simp]: "from_bytes [] = 0"
  by (simp add: from_bytes_def)

lemma uint_byte_range: "0 \<le> uint (b :: byte) \<and> uint b < 256"
  using uint_lt2p [of b] by simp

lemma from_bytes_range: "0 \<le> from_bytes bs \<and> from_bytes bs < 256 ^ length bs"
proof (induction bs rule: rev_induct)
  case Nil
  then show ?case by simp
next
  case (snoc b bs)
  have "from_bytes bs \<le> 256 ^ length bs - 1" using snoc by simp
  then have "from_bytes bs * 256 \<le> (256 ^ length bs - 1) * 256"
    by (rule mult_right_mono) simp
  then have "from_bytes bs * 256 + uint b \<le> (256 ^ length bs - 1) * 256 + 255"
    using uint_byte_range [of b] by linarith
  then show ?case using snoc uint_byte_range [of b] by (simp add: algebra_simps)
qed

lemma from_bytes_be_digits:
  "0 \<le> i \<Longrightarrow> i < 256 ^ k \<Longrightarrow> from_bytes (be_digits k i) = i"
proof (induction k arbitrary: i)
  case 0
  then show ?case by simp
next
  case (Suc k)
  have "i div 256 < 256 ^ k" using Suc.prems(2) by (simp add: div_less_iff_less_mult)
  then have "from_bytes (be_digits k (i div 256)) = i div 256"
    using Suc.IH Suc.prems(1) by simp
  then show ?case by (simp add: uint_word_of_int)
qed

lemma be_digits_from_bytes: "be_digits (length bs) (from_bytes bs) = bs"
proof (induction bs rule: rev_induct)
  case Nil
  then show ?case by simp
next
  case (snoc b bs)
  have u: "0 \<le> uint b" "uint b < 256" using uint_byte_range [of b] by simp_all
  then have "(from_bytes bs * 256 + uint b) div 256 = from_bytes bs"
    and "(from_bytes bs * 256 + uint b) mod 256 = uint b" by simp_all
  then show ?case using snoc by (simp add: word_of_int_uint)
qed

lemma bit_length_nat_0 [simp]: "bit_length_nat 0 = 0"
  by (simp add: bit_length_nat.simps)

lemma bit_length_nat_pos: "0 < n \<Longrightarrow> bit_length_nat n = Suc (bit_length_nat (n div 2))"
  by (simp add: bit_length_nat.simps [of n])

lemma bit_length_nat_le_iff: "bit_length_nat n \<le> k \<longleftrightarrow> n < 2 ^ k"
proof (induction n arbitrary: k rule: bit_length_nat.induct)
  case (1 n)
  show ?case
  proof (cases "n = 0")
    case True
    then show ?thesis by simp
  next
    case False
    then have step: "bit_length_nat n = Suc (bit_length_nat (n div 2))"
      by (simp add: bit_length_nat_pos)
    show ?thesis
    proof (cases k)
      case 0
      then show ?thesis using False step by simp
    next
      case (Suc k')
      have "bit_length_nat (n div 2) \<le> k' \<longleftrightarrow> n div 2 < 2 ^ k'" using "1.IH" [OF False] .
      also have "\<dots> \<longleftrightarrow> n < 2 ^ Suc k'" by (simp add: div_less_iff_less_mult mult.commute)
      finally show ?thesis using step Suc by simp
    qed
  qed
qed

text \<open>The length \<^verbatim>\<open>int_to_text\<close> asks for is the length of a byte string without a
  leading zero byte.\<close>

lemma minimal_length_from_bytes:
  assumes "bs \<noteq> []" and "hd bs \<noteq> 0"
  shows "(bit_length (from_bytes bs) + 7) div 8 = length bs"
proof -
  obtain b rest where bs: "bs = b # rest" using assms(1) by (cases bs) auto
  let ?v = "from_bytes bs" and ?L = "length rest"
  have v0: "0 \<le> ?v" using from_bytes_range [of bs] by simp
  have p8: "(2::int) ^ (8 * k) = 256 ^ k" for k by (simp add: power_mult)
  have "?v < 2 ^ (8 * Suc ?L)"
    using from_bytes_range [of bs] bs by (simp only: p8 length_Cons)
  then have "nat ?v < 2 ^ (8 * Suc ?L)" using v0 by (simp add: nat_less_iff)
  then have le: "bit_length ?v \<le> 8 * Suc ?L"
    using v0 by (simp add: bit_length_def bit_length_nat_le_iff)
  have "uint b \<noteq> 0" using assms(2) bs by (simp add: uint_0_iff)
  then have "1 \<le> uint b" using uint_byte_range [of b] by linarith
  then have m: "256 ^ ?L \<le> uint b * 256 ^ ?L" by simp
  have r: "0 \<le> from_bytes rest" using from_bytes_range [of rest] by simp
  have "2 ^ (8 * ?L) \<le> ?v" unfolding bs from_bytes_Cons p8 using m r by linarith
  then have "\<not> nat ?v < 2 ^ (8 * ?L)" by (simp add: nat_less_iff)
  then have gt: "\<not> bit_length ?v \<le> 8 * ?L"
    using v0 by (simp add: bit_length_def bit_length_nat_le_iff)
  have "8 * ?L < bit_length ?v" and "bit_length ?v \<le> 8 * ?L + 8" using le gt by simp_all
  then have "(bit_length ?v + 7) div 8 = Suc ?L" by (intro div_nat_eqI) simp_all
  then show ?thesis using bs by simp
qed

section \<open>UTF-8 round trip\<close>

text \<open>The code points \<^verbatim>\<open>str.encode('utf-8')\<close> accepts.\<close>

definition valid_char :: "nat \<Rightarrow> bool" where
  "valid_char c \<longleftrightarrow> c < 0x110000 \<and> \<not> is_surrogate c"

lemma unat_byte_of [simp]: "x < 256 \<Longrightarrow> unat (byte_of x) = x"
  by (simp add: byte_of_def unat_of_nat)

lemma byte_of_eq_0: "x < 256 \<Longrightarrow> byte_of x = 0 \<longleftrightarrow> x = 0"
  by (metis unat_byte_of unat_0 word_unat_eq_iff)

lemma decode_char_1: "c < 0x80 \<Longrightarrow> decode_char (byte_of c # rest) = Some (c, rest)"
  by (simp add: decode_char_def)

lemma decode_char_2:
  "2 \<le> a \<Longrightarrow> a < 32 \<Longrightarrow> b < 64 \<Longrightarrow>
   decode_char (byte_of (0xC0 + a) # byte_of (0x80 + b) # rest) = Some (a * 64 + b, rest)"
  by (simp add: decode_char_def is_cont_def Let_def)

lemma decode_char_3:
  "a < 16 \<Longrightarrow> b < 64 \<Longrightarrow> d < 64 \<Longrightarrow> 0x800 \<le> a * 4096 + b * 64 + d \<Longrightarrow>
   \<not> is_surrogate (a * 4096 + b * 64 + d) \<Longrightarrow>
   decode_char (byte_of (0xE0 + a) # byte_of (0x80 + b) # byte_of (0x80 + d) # rest)
     = Some (a * 4096 + b * 64 + d, rest)"
  by (simp add: decode_char_def is_cont_def Let_def)

lemma decode_char_4:
  "a < 5 \<Longrightarrow> b < 64 \<Longrightarrow> d < 64 \<Longrightarrow> e < 64 \<Longrightarrow>
   0x10000 \<le> a * 262144 + b * 4096 + d * 64 + e \<Longrightarrow>
   a * 262144 + b * 4096 + d * 64 + e < 0x110000 \<Longrightarrow>
   decode_char (byte_of (0xF0 + a) # byte_of (0x80 + b) # byte_of (0x80 + d)
                # byte_of (0x80 + e) # rest)
     = Some (a * 262144 + b * 4096 + d * 64 + e, rest)"
  by (simp add: decode_char_def is_cont_def Let_def)

lemma digits_64_2: "c = c div 64 * 64 + c mod (64::nat)"
  by simp

lemma digits_64_3: "c = c div 4096 * 4096 + c div 64 mod 64 * 64 + c mod (64::nat)"
proof -
  have "c div 4096 = c div 64 div 64" by (simp add: div_mult2_eq [of c 64 64, simplified])
  moreover have "c div 64 = c div 64 div 64 * 64 + c div 64 mod 64" by simp
  ultimately show ?thesis using digits_64_2 [of c] by linarith
qed

lemma digits_64_4:
  "c = c div 262144 * 262144 + c div 4096 mod 64 * 4096 + c div 64 mod 64 * 64 + c mod (64::nat)"
proof -
  have "c div 262144 = c div 4096 div 64" by (simp add: div_mult2_eq [of c 4096 64, simplified])
  moreover have "c div 4096 = c div 4096 div 64 * 64 + c div 4096 mod 64" by simp
  ultimately show ?thesis using digits_64_3 [of c] by linarith
qed

lemma utf8_encode_char_valid:
  assumes "valid_char c"
  shows "\<exists>bs. utf8_encode_char c = Inr bs \<and> bs \<noteq> [] \<and> (hd bs = 0 \<longleftrightarrow> c = 0)
           \<and> (\<forall>rest. decode_char (bs @ rest) = Some (c, rest))"
proof -
  have c: "c < 0x110000" "\<not> is_surrogate c" using assms by (simp_all add: valid_char_def)
  consider "c < 0x80" | "0x80 \<le> c" "c < 0x800" | "0x800 \<le> c" "c < 0x10000"
    | "0x10000 \<le> c" by linarith
  then show ?thesis
  proof cases
    case 1
    then show ?thesis by (simp add: utf8_encode_char_def decode_char_1 byte_of_eq_0)
  next
    case 2
    have enc: "utf8_encode_char c = Inr [byte_of (0xC0 + c div 64), byte_of (0x80 + c mod 64)]"
      using 2 by (simp add: utf8_encode_char_def)
    have "2 \<le> c div 64" "c div 64 < 32"
      using 2 by (simp_all add: less_eq_div_iff_mult_less_eq div_less_iff_less_mult)
    then show ?thesis using enc decode_char_2 [of "c div 64" "c mod 64"] digits_64_2 [of c]
      by (simp add: byte_of_eq_0)
  next
    case 3
    have enc: "utf8_encode_char c = Inr [byte_of (0xE0 + c div 4096),
        byte_of (0x80 + c div 64 mod 64), byte_of (0x80 + c mod 64)]"
      using 3 c by (simp add: utf8_encode_char_def)
    have "c div 4096 < 16" using 3 by (simp add: div_less_iff_less_mult)
    then show ?thesis
      using 3 c enc decode_char_3 [of "c div 4096" "c div 64 mod 64" "c mod 64"] digits_64_3 [of c]
      by (simp add: byte_of_eq_0)
  next
    case 4
    have enc: "utf8_encode_char c = Inr [byte_of (0xF0 + c div 262144),
        byte_of (0x80 + c div 4096 mod 64), byte_of (0x80 + c div 64 mod 64),
        byte_of (0x80 + c mod 64)]"
      using 4 c by (simp add: utf8_encode_char_def)
    have "c div 262144 < 5" using c by (simp add: div_less_iff_less_mult)
    then show ?thesis
      using 4 c enc decode_char_4 [of "c div 262144" "c div 4096 mod 64" "c div 64 mod 64" "c mod 64"]
        digits_64_4 [of c]
      by (simp add: byte_of_eq_0)
  qed
qed

lemma utf8_decode_append_char:
  assumes "bs \<noteq> []" and "decode_char (bs @ rest) = Some (c, rest)"
  shows "utf8_decode (bs @ rest) = cons_char c (utf8_decode rest)"
  using assms by (simp add: utf8_decode.simps [of "bs @ rest"])

lemma utf8_roundtrip:
  assumes "\<forall>c \<in> set s. valid_char c"
  shows "\<exists>bs. utf8_encode s = Inr bs \<and> utf8_decode bs = Inr s
           \<and> (bs = [] \<longleftrightarrow> s = []) \<and> (s \<noteq> [] \<longrightarrow> (hd bs = 0 \<longleftrightarrow> hd s = 0))"
  using assms
proof (induction s)
  case Nil
  then show ?case by (simp add: utf8_decode.simps)
next
  case (Cons c s)
  obtain b where b: "utf8_encode_char c = Inr b" "b \<noteq> []" "hd b = 0 \<longleftrightarrow> c = 0"
    "\<And>rest. decode_char (b @ rest) = Some (c, rest)"
    using utf8_encode_char_valid Cons.prems by force
  obtain bs where bs: "utf8_encode s = Inr bs" "utf8_decode bs = Inr s"
    using Cons by auto
  have "utf8_decode (b @ bs) = Inr (c # s)"
    using utf8_decode_append_char [OF b(2) b(4)] bs(2) by (simp add: cons_char_def)
  then show ?case using b bs by simp
qed

lemma utf8_encode_char_invalid:
  assumes "\<not> valid_char c"
  shows "utf8_encode_char c = Inl EncodeError"
proof (cases "c < 0x110000")
  case True
  then have "is_surrogate c" using assms by (simp add: valid_char_def)
  then have "\<not> c < 0x800" "c < 0x10000" by (simp_all add: is_surrogate_def)
  then show ?thesis using \<open>is_surrogate c\<close> by (simp add: utf8_encode_char_def)
next
  case False
  then have "\<not> c < 0x80" "\<not> c < 0x800" "\<not> c < 0x10000" by simp_all
  then show ?thesis using False by (simp add: utf8_encode_char_def)
qed

lemma utf8_encode_char_Inl:
  "utf8_encode_char c = Inl e \<longleftrightarrow> e = EncodeError \<and> \<not> valid_char c"
proof (cases "valid_char c")
  case True
  then show ?thesis using utf8_encode_char_valid [OF True] by auto
next
  case False
  then show ?thesis using utf8_encode_char_invalid [OF False] by auto
qed

lemma utf8_encode_Inl:
  "utf8_encode s = Inl e \<longleftrightarrow> e = EncodeError \<and> (\<exists>c \<in> set s. \<not> valid_char c)"
proof (induction s)
  case Nil
  then show ?case by simp
next
  case (Cons c s)
  show ?case
  proof (cases "utf8_encode_char c")
    case (Inl e')
    then have "e' = EncodeError" "\<not> valid_char c" using utf8_encode_char_Inl [of c e'] by simp_all
    then show ?thesis using Inl by auto
  next
    case (Inr b)
    then have "valid_char c" using utf8_encode_char_invalid by fastforce
    then show ?thesis using Inr Cons.IH by (cases "utf8_encode s") simp_all
  qed
qed

lemma to_bytes_from_bytes:
  "to_bytes (from_bytes bs) (length bs) = Inr bs"
  using from_bytes_range [of bs] by (simp add: to_bytes_def be_digits_from_bytes not_le)

lemma int_to_text_from_bytes:
  assumes "bs \<noteq> []" and "hd bs \<noteq> 0"
  shows "int_to_text (from_bytes bs) = utf8_decode bs"
  using minimal_length_from_bytes [OF assms] assms(1)
  by (simp add: int_to_text_def to_bytes_from_bytes Let_def)

lemma text_to_int_Inr:
  assumes "text_to_int s = Inr v"
  shows "(\<forall>c \<in> set s. valid_char c) \<and> 0 \<le> v"
proof -
  obtain bs where bs: "utf8_encode s = Inr bs" "v = from_bytes bs"
    using assms by (cases "utf8_encode s") (auto simp: text_to_int_def)
  then show ?thesis using utf8_encode_Inl [of s EncodeError] from_bytes_range [of bs] by auto
qed

lemma int_to_text_text_to_int:
  assumes "text_to_int s = Inr v" and "s \<noteq> []" and "hd s \<noteq> 0"
  shows "int_to_text v = Inr s"
proof -
  have valid: "\<forall>c \<in> set s. valid_char c" using text_to_int_Inr [OF assms(1)] by simp
  obtain bs where bs: "utf8_encode s = Inr bs" "utf8_decode bs = Inr s" "bs \<noteq> []" "hd bs \<noteq> 0"
    using utf8_roundtrip [OF valid] assms(2,3) by auto
  have "v = from_bytes bs" using assms(1) bs(1) by (simp add: text_to_int_def)
  then show ?thesis using int_to_text_from_bytes [OF bs(3,4)] bs(2) by simp
qed

lemma utf8_decode_Inl: "utf8_decode bs = Inl e \<Longrightarrow> e = DecodeError"
proof (induction bs rule: utf8_decode.induct)
  case (1 bs)
  then show ?case
    by (auto simp: utf8_decode.simps [of bs] cons_char_def split: if_splits option.splits sum.splits)
qed

lemma bit_length_le_len: "bit_length i \<le> 8 * ((bit_length i + 7) div 8)"
proof -
  let ?b = "bit_length i"
  have "?b + 7 = 8 * ((?b + 7) div 8) + (?b + 7) mod 8" by simp
  moreover have "(?b + 7) mod 8 < 8" by simp
  ultimately show ?thesis by linarith
qed

lemma int_to_text_nonneg:
  assumes "0 \<le> i"
  shows "\<exists>bs. int_to_text i = utf8_decode bs"
proof -
  let ?l = "(bit_length i + 7) div 8"
  define len where "len = (if ?l = 0 then 1 else ?l)"
  have "bit_length i \<le> 8 * len" using bit_length_le_len [of i] by (simp add: len_def)
  then have "nat i < 2 ^ (8 * len)" using assms by (simp add: bit_length_def bit_length_nat_le_iff)
  then have "i < 256 ^ len" using assms by (simp add: nat_less_iff power_mult)
  then have "to_bytes i len = Inr (be_digits len i)" using assms by (simp add: to_bytes_def)
  then have "int_to_text i = utf8_decode (be_digits len i)"
    by (simp only: int_to_text_def len_def Let_def sum.case)
  then show ?thesis ..
qed

lemma text_to_int_valid:
  assumes "\<forall>c \<in> set s. valid_char c"
  shows "\<exists>v. text_to_int s = Inr v"
proof (cases "utf8_encode s")
  case (Inl e)
  then show ?thesis using utf8_encode_Inl [of s e] assms by simp
qed (simp add: text_to_int_def)

section \<open>The strict decoder accepts canonical UTF-8 only\<close>

lemma byte_of_unat [simp]: "byte_of (unat b) = b"
  by (simp add: byte_of_def)

lemma unat_byte_less: "unat (b :: byte) < 256"
  using unsigned_less [of b] by simp

lemma digit_64: "y < 64 \<Longrightarrow> (k * 64 + y) div 64 = k \<and> (k * 64 + y) mod 64 = (y::nat)"
  by simp

lemma div_4096: "(c::nat) div 4096 = c div 64 div 64"
  by (simp add: div_mult2_eq [of c 64 64, simplified])

lemma div_262144: "(c::nat) div 262144 = c div 64 div 64 div 64"
  by (simp add: div_mult2_eq [of c 4096 64, simplified] div_4096)

lemma decode_char_Some:
  assumes "decode_char bs = Some (c, rest)"
  shows "valid_char c \<and> (\<exists>b. utf8_encode_char c = Inr b \<and> bs = b @ rest)"
proof -
  obtain b0 r0 where bs: "bs = b0 # r0" using assms by (cases bs) (simp_all add: decode_char_def)
  define c0 where "c0 = unat b0"
  have c0: "c0 < 256" by (simp add: c0_def unat_byte_less)
  consider "c0 < 0x80" | "0xC2 \<le> c0" "c0 < 0xE0" | "0xE0 \<le> c0" "c0 < 0xF0"
    | "0xF0 \<le> c0" "c0 < 0xF5" | "\<not> c0 < 0x80" "\<not> (0xC2 \<le> c0 \<and> c0 < 0xE0)"
        "\<not> (0xE0 \<le> c0 \<and> c0 < 0xF0)" "\<not> (0xF0 \<le> c0 \<and> c0 < 0xF5)"
    by linarith
  then show ?thesis
  proof cases
    case 1
    then have "c = c0" "rest = r0" using assms by (simp_all add: decode_char_def bs c0_def)
    then show ?thesis using 1
      by (simp add: valid_char_def is_surrogate_def utf8_encode_char_def bs c0_def)
  next
    case 2
    obtain b1 r1 where r0: "r0 = b1 # r1" and cb: "is_cont b1"
      and cr: "c = (c0 - 0xC0) * 64 + (unat b1 - 0x80)" "rest = r1"
      using assms 2 by (auto simp: decode_char_def bs c0_def Let_def split: list.splits if_splits)
    define x where "x = unat b1 - 0x80"
    have x: "x < 64" "unat b1 = 0x80 + x" using cb unfolding is_cont_def x_def by linarith+
    have cv: "0x80 \<le> c" "c < 0x800" using 2 cr(1) x(1) by (simp_all add: x_def)
    have "c div 64 = c0 - 0xC0" "c mod 64 = x" using cr(1) x(1) by (simp_all add: x_def)
    then have "utf8_encode_char c = Inr [b0, b1]"
      using cv 2 x(2) [symmetric] by (simp add: utf8_encode_char_def c0_def)
    then show ?thesis using cv by (simp add: valid_char_def is_surrogate_def bs r0 cr(2))
  next
    case 3
    obtain b1 b2 r2 where r0: "r0 = b1 # b2 # r2" and cb: "is_cont b1" "is_cont b2"
      and cr: "c = (c0 - 0xE0) * 4096 + (unat b1 - 0x80) * 64 + (unat b2 - 0x80)" "rest = r2"
      and cv: "0x800 \<le> c" "\<not> is_surrogate c"
      using assms 3 by (auto simp: decode_char_def bs c0_def Let_def split: list.splits if_splits)
    define x where "x = unat b1 - 0x80"
    define y where "y = unat b2 - 0x80"
    have xy: "x < 64" "unat b1 = 0x80 + x" "y < 64" "unat b2 = 0x80 + y"
      using cb unfolding is_cont_def x_def y_def by linarith+
    have cx: "c = (c0 - 0xE0) * 4096 + x * 64 + y" using cr(1) by (simp add: x_def y_def)
    have lt: "c < 0x10000" using cx xy(1,3) 3 by simp
    have c3: "c = ((c0 - 0xE0) * 64 + x) * 64 + y" using cx by (simp add: algebra_simps)
    have d1: "c div 64 = (c0 - 0xE0) * 64 + x \<and> c mod 64 = y" unfolding c3 by (rule digit_64 [OF xy(3)])
    have d2: "c div 64 div 64 = c0 - 0xE0 \<and> c div 64 mod 64 = x"
      unfolding d1 [THEN conjunct1] by (rule digit_64 [OF xy(1)])
    have "c div 4096 = c0 - 0xE0" "c div 64 mod 64 = x" "c mod 64 = y"
      using d1 d2 by (simp_all add: div_4096)
    then have "utf8_encode_char c = Inr [b0, b1, b2]"
      using cv lt 3 xy(2,4) [symmetric] by (simp add: utf8_encode_char_def c0_def)
    then show ?thesis using cv lt by (simp add: valid_char_def bs r0 cr(2))
  next
    case 4
    obtain b1 b2 b3 r3 where r0: "r0 = b1 # b2 # b3 # r3" and cb: "is_cont b1" "is_cont b2" "is_cont b3"
      and cr: "c = (c0 - 0xF0) * 262144 + (unat b1 - 0x80) * 4096 + (unat b2 - 0x80) * 64
                 + (unat b3 - 0x80)" "rest = r3"
      and cv: "0x10000 \<le> c" "c < 0x110000"
      using assms 4 by (auto simp: decode_char_def bs c0_def Let_def split: list.splits if_splits)
    define x where "x = unat b1 - 0x80"
    define y where "y = unat b2 - 0x80"
    define z where "z = unat b3 - 0x80"
    have xyz: "x < 64" "unat b1 = 0x80 + x" "y < 64" "unat b2 = 0x80 + y" "z < 64" "unat b3 = 0x80 + z"
      using cb unfolding is_cont_def x_def y_def z_def by linarith+
    have cx: "c = (c0 - 0xF0) * 262144 + x * 4096 + y * 64 + z" using cr(1) by (simp add: x_def y_def z_def)
    have c4: "c = (((c0 - 0xF0) * 64 + x) * 64 + y) * 64 + z" using cx by (simp add: algebra_simps)
    have d1: "c div 64 = ((c0 - 0xF0) * 64 + x) * 64 + y \<and> c mod 64 = z"
      unfolding c4 by (rule digit_64 [OF xyz(5)])
    have d2: "c div 64 div 64 = (c0 - 0xF0) * 64 + x \<and> c div 64 mod 64 = y"
      unfolding d1 [THEN conjunct1] by (rule digit_64 [OF xyz(3)])
    have d3: "c div 64 div 64 div 64 = c0 - 0xF0 \<and> c div 64 div 64 mod 64 = x"
      unfolding d2 [THEN conjunct1] by (rule digit_64 [OF xyz(1)])
    have "c div 262144 = c0 - 0xF0" "c div 4096 mod 64 = x" "c div 64 mod 64 = y" "c mod 64 = z"
      using d1 d2 d3 by (simp_all add: div_4096 div_262144)
    then have "utf8_encode_char c = Inr [b0, b1, b2, b3]"
      using cv 4 xyz(2,4,6) [symmetric] by (simp add: utf8_encode_char_def c0_def)
    then show ?thesis using cv by (simp add: valid_char_def is_surrogate_def bs r0 cr(2))
  next
    case 5
    then show ?thesis using assms by (simp add: decode_char_def bs c0_def Let_def split: if_splits)
  qed
qed

lemma utf8_decode_Inr: "utf8_decode bs = Inr s \<Longrightarrow> utf8_encode s = Inr bs"
proof (induction bs arbitrary: s rule: utf8_decode.induct)
  case (1 bs)
  show ?case
  proof (cases "bs = []")
    case True
    then show ?thesis using "1.prems" by (simp add: utf8_decode.simps)
  next
    case False
    then obtain c rest where dc: "decode_char bs = Some (c, rest)"
      using "1.prems" by (cases "decode_char bs") (auto simp: utf8_decode.simps [of bs])
    obtain s' where s': "utf8_decode rest = Inr s'" "s = c # s'"
      using "1.prems" False dc
      by (cases "utf8_decode rest") (auto simp: utf8_decode.simps [of bs] cons_char_def)
    have "utf8_encode s' = Inr rest" using "1.IH" [OF False dc refl s'(1)] .
    moreover obtain b where "utf8_encode_char c = Inr b" "bs = b @ rest"
      using decode_char_Some [OF dc] by blast
    ultimately show ?thesis using s'(2) by simp
  qed
qed

lemma int_to_text_Inr:
  assumes "int_to_text i = Inr s"
  shows "\<exists>b. utf8_decode b = Inr s \<and> from_bytes b = i"
proof -
  let ?l = "(bit_length i + 7) div 8"
  define len where "len = (if ?l = 0 then 1 else ?l)"
  obtain b where tb: "to_bytes i len = Inr b" and db: "utf8_decode b = Inr s"
    using assms by (cases "to_bytes i len") (simp_all add: int_to_text_def len_def Let_def)
  have i: "0 \<le> i" "i < 256 ^ len" and b: "b = be_digits len i"
    using tb by (simp_all add: to_bytes_def split: if_splits)
  then show ?thesis using db from_bytes_be_digits [OF i] by blast
qed

section \<open>Component properties\<close>

text \<open>
  C7: the round-trip law of the Codec: every string that \<^verbatim>\<open>str.encode\<close> accepts and
  whose UTF-8 form does not start with a zero byte (it is not empty and does not start
  with U+0000) comes back from \<open>int_to_text\<close> unchanged.
\<close>

theorem codec_roundtrip:
  assumes "\<forall>c \<in> set s. valid_char c" and "s \<noteq> []" and "hd s \<noteq> 0"
  shows "\<exists>v. text_to_int s = Inr v \<and> 0 \<le> v \<and> int_to_text v = Inr s"
proof -
  obtain v where v: "text_to_int s = Inr v" using text_to_int_valid [OF assms(1)] by blast
  then show ?thesis
    using text_to_int_Inr [OF v] int_to_text_text_to_int [OF v assms(2,3)] by blast
qed

theorem codec_roundtrip_witness:
  "list_all valid_char (ascii ''HELLO'') \<and> ascii ''HELLO'' \<noteq> [] \<and> hd (ascii ''HELLO'') \<noteq> 0
   \<and> (\<exists>v. text_to_int (ascii ''HELLO'') = Inr v \<and> 0 \<le> v \<and> int_to_text v = Inr (ascii ''HELLO''))"
proof -
  have h: "\<forall>c \<in> set (ascii ''HELLO''). valid_char c" "ascii ''HELLO'' \<noteq> []" "hd (ascii ''HELLO'') \<noteq> 0"
    by (simp_all add: ascii_def valid_char_def is_surrogate_def)
  show ?thesis using h codec_roundtrip [OF h] by (simp add: list_all_iff)
qed

text \<open>
  C8: the other round trip of the Codec: whatever \<open>int_to_text\<close> returns encodes back
  to the same integer.  The strict decoder accepts only the canonical encoding of valid
  code points (\<open>decode_char_Some\<close>), so decoding never merges two byte strings.
\<close>

theorem text_to_int_int_to_text:
  assumes "int_to_text i = Inr s"
  shows "text_to_int s = Inr i"
proof -
  obtain b where b: "utf8_decode b = Inr s" "from_bytes b = i" using int_to_text_Inr [OF assms] by blast
  then show ?thesis using utf8_decode_Inr [OF b(1)] by (simp add: text_to_int_def)
qed

theorem text_to_int_int_to_text_witness:
  "int_to_text 65 = Inr [65] \<and> text_to_int [65] = Inr 65"
proof -
  have "bit_length 65 = 7" by (simp add: bit_length_def bit_length_nat.simps)
  then have r: "int_to_text 65 = Inr [65]"
    by (simp add: int_to_text_def to_bytes_def utf8_decode.simps decode_char_def cons_char_def)
  show ?thesis using r text_to_int_int_to_text [OF r] by simp
qed

text \<open>
  C22: \<open>text_to_int\<close> fails exactly on the strings that hold a code point UTF-8
  cannot encode (a lone surrogate), and then only with \<^verbatim>\<open>UnicodeEncodeError\<close>.
\<close>

theorem text_to_int_error:
  "text_to_int s = Inl e \<longleftrightarrow> e = EncodeError \<and> (\<exists>c \<in> set s. \<not> valid_char c)"
  using utf8_encode_Inl [of s e] by (cases "utf8_encode s") (auto simp: text_to_int_def)

end
