(* ===== verification/Crypto.thy ===== *)
theory Crypto
  imports ModArith Codec
begin

text \<open>
  The CryptoEngine of src/RSA.py: \<^verbatim>\<open>encrypt_text_plainstore\<close>,
  \<^verbatim>\<open>decrypt_cipher_to_text\<close>, \<^verbatim>\<open>sign_text\<close> and \<^verbatim>\<open>verify_text\<close>, each over the
  Codec (\<open>text_to_int\<close>, \<open>int_to_text\<close>) and the built-in three-argument \<^verbatim>\<open>pow\<close>
  (\<open>py_pow\<close>).  Keys are the tuples the code passes around: a public key \<open>(n, e)\<close> and
  a private key \<open>(n, d, p, q)\<close>.  Every \<^verbatim>\<open>raise\<close> of the code, and every exception of
  a library call it makes, is an \<open>Inl\<close> value.

  The contract of a key pair is \<open>rsa_key_ok\<close>: what \<^verbatim>\<open>generate_keypair\<close> establishes
  (theory KeyGen) and what the correctness of the engine needs.  Under it the two
  exponentiations are inverse on \<open>[0, n)\<close> (\<open>rsa_pow_inverse\<close>, from the exponent law of
  NumberTheory), which gives decrypt-after-encrypt and verify-after-sign.
\<close>

type_synonym pubkey = "int \<times> int"
type_synonym privkey = "int \<times> int \<times> int \<times> int"

definition encrypt_text_plainstore :: "pystr \<Rightarrow> pubkey \<Rightarrow> error + int" where
  "encrypt_text_plainstore message pubkey = (case pubkey of (n, e) \<Rightarrow>
     (case text_to_int message of
        Inl err \<Rightarrow> Inl err
      | Inr m \<Rightarrow> if n \<le> m then Inl MessageTooLarge else py_pow m e n))"

definition decrypt_cipher_to_text :: "int \<Rightarrow> privkey \<Rightarrow> error + pystr" where
  "decrypt_cipher_to_text cipher_int privkey = (case privkey of (n, d, p, q) \<Rightarrow>
     (case py_pow cipher_int d n of
        Inl err \<Rightarrow> Inl err
      | Inr m \<Rightarrow> int_to_text m))"

definition sign_text :: "pystr \<Rightarrow> privkey \<Rightarrow> error + int" where
  "sign_text message privkey = (case privkey of (n, d, p, q) \<Rightarrow>
     (case text_to_int message of
        Inl err \<Rightarrow> Inl err
      | Inr m \<Rightarrow> if n \<le> m then Inl MessageTooLarge else py_pow m d n))"

definition verify_text :: "pystr \<Rightarrow> int \<Rightarrow> pubkey \<Rightarrow> error + bool" where
  "verify_text message signature_int pubkey = (case pubkey of (n, e) \<Rightarrow>
     if \<not> (0 \<le> signature_int \<and> signature_int < n) then Inr False
     else (case text_to_int message of
        Inl err \<Rightarrow> Inl err
      | Inr m \<Rightarrow> (case py_pow signature_int e n of
          Inl err \<Rightarrow> Inl err
        | Inr v \<Rightarrow> Inr (v = m))))"

text \<open>
  The key-pair contract (spec section 3 and 8): \<open>n = p * q\<close> for distinct primes,
  a positive public exponent, a non-negative private exponent, and
  \<open>e * d \<equiv> 1 (mod \<phi>)\<close> with \<open>\<phi> = (p - 1) * (q - 1)\<close>.
\<close>

definition rsa_key_ok :: "pubkey \<Rightarrow> privkey \<Rightarrow> bool" where
  "rsa_key_ok pub priv \<longleftrightarrow> (case pub of (n, e) \<Rightarrow> case priv of (n', d, p, q) \<Rightarrow>
     n' = n \<and> n = p * q \<and> is_prime p \<and> is_prime q \<and> p \<noteq> q
     \<and> 0 < e \<and> 0 \<le> d \<and> (e * d) mod ((p - 1) * (q - 1)) = 1)"

section \<open>The exponent law for a valid key pair\<close>

lemma rsa_ed_cycle:
  assumes "is_prime p" and "is_prime q" and "0 < e" and "0 \<le> d"
    and "(e * d) mod ((p - 1) * (q - 1)) = 1"
  shows "\<exists>k. nat e * nat d = 1 + k * ((nat p - 1) * (nat q - 1))"
proof -
  let ?phi = "(p - 1) * (q - 1)"
  have p1: "1 < p" and q1: "1 < q" using assms(1,2) by (simp_all add: is_prime_gt1)
  then have phi: "0 < ?phi" by simp
  define K where "K = e * d div ?phi"
  have "0 \<le> e * d" using assms(3,4) by simp
  then have k0: "0 \<le> K" using phi by (simp add: K_def pos_imp_zdiv_nonneg_iff)
  have ed: "e * d = 1 + K * ?phi"
    using div_mult_mod_eq [of "e * d" ?phi] assms(5) by (simp add: K_def)
  have "int (1 + nat K * ((nat p - 1) * (nat q - 1))) = 1 + K * ?phi"
    using p1 q1 k0 by (simp add: of_nat_diff)
  also have "\<dots> = int (nat e * nat d)" using assms(3,4) ed by simp
  finally have "int (nat e * nat d) = int (1 + nat K * ((nat p - 1) * (nat q - 1)))" ..
  then show ?thesis by (intro exI) (simp only: of_nat_eq_iff)
qed

lemma rsa_key_ok_modulus:
  assumes "rsa_key_ok (n, e) (n', d, p, q)"
  shows "n' = n \<and> 1 < n \<and> 0 < e \<and> 0 \<le> d"
proof -
  have "1 < p" "1 < q" using assms by (simp_all add: rsa_key_ok_def is_prime_gt1)
  then have "1 < p * q" by (simp add: less_1_mult)
  then show ?thesis using assms by (simp add: rsa_key_ok_def)
qed

lemma rsa_pow_inverse:
  assumes "rsa_key_ok (n, e) (n', d, p, q)" and "0 \<le> m" and "m < n"
  shows "(m ^ nat e mod n) ^ nat d mod n = m" and "(m ^ nat d mod n) ^ nat e mod n = m"
proof -
  have k: "is_prime p" "is_prime q" "p \<noteq> q" "n = p * q" "0 < e" "0 \<le> d"
    "(e * d) mod ((p - 1) * (q - 1)) = 1"
    using assms(1) by (simp_all add: rsa_key_ok_def)
  obtain k where ed: "nat e * nat d = 1 + k * ((nat p - 1) * (nat q - 1))"
    using rsa_ed_cycle [OF k(1,2,5,6,7)] by blast
  have law: "m ^ (nat e * nat d) mod n = m"
    using rsa_exponent_law [OF k(1-3) ed, of m] k(4) assms(2,3) by simp
  show "(m ^ nat e mod n) ^ nat d mod n = m"
    using law by (simp add: power_mod power_mult)
  show "(m ^ nat d mod n) ^ nat e mod n = m"
    using law by (simp add: power_mod power_mult [symmetric] mult.commute)
qed

lemma rsa_encrypt_Inr:
  assumes "rsa_key_ok (n, e) (n', d, p, q)" and "text_to_int msg = Inr m" and "m < n"
  shows "encrypt_text_plainstore msg (n, e) = Inr (m ^ nat e mod n)"
    and "sign_text msg (n', d, p, q) = Inr (m ^ nat d mod n)"
  using rsa_key_ok_modulus [OF assms(1)] assms(2,3)
  by (simp_all add: encrypt_text_plainstore_def sign_text_def)

lemma sign_text_Inr:
  assumes "rsa_key_ok (n, e) (n', d, p, q)" and "sign_text msg (n', d, p, q) = Inr s"
  shows "\<exists>m. text_to_int msg = Inr m \<and> 0 \<le> m \<and> m < n \<and> s = m ^ nat d mod n"
proof (cases "text_to_int msg")
  case (Inl err)
  then show ?thesis using assms(2) by (simp add: sign_text_def)
next
  case (Inr m)
  have k: "n' = n" "1 < n" "0 \<le> d" using rsa_key_ok_modulus [OF assms(1)] by simp_all
  have mn: "m < n" using assms(2) Inr k(1) by (simp add: sign_text_def split: if_splits)
  moreover have "s = m ^ nat d mod n" using assms(2) Inr k mn by (simp add: sign_text_def)
  ultimately show ?thesis using Inr text_to_int_Inr [OF Inr] by blast
qed

lemma verify_in_range:
  assumes "1 < n" and "0 \<le> e" and "0 \<le> s" and "s < n" and "text_to_int msg = Inr m"
  shows "verify_text msg s (n, e) = Inr (s ^ nat e mod n = m)"
  using assms by (simp add: verify_text_def)

lemma decrypt_encrypt:
  assumes "rsa_key_ok (n, e) (n', d, p, q)" and "text_to_int msg = Inr m" and "m < n"
    and "msg \<noteq> []" and "hd msg \<noteq> 0"
  shows "encrypt_text_plainstore msg (n, e) = Inr (m ^ nat e mod n)
         \<and> decrypt_cipher_to_text (m ^ nat e mod n) (n', d, p, q) = Inr msg"
proof -
  have k: "n' = n" "1 < n" "0 \<le> d" using rsa_key_ok_modulus [OF assms(1)] by simp_all
  have m0: "0 \<le> m" using text_to_int_Inr [OF assms(2)] by simp
  have "py_pow (m ^ nat e mod n) d n = Inr m"
    using k(2,3) rsa_pow_inverse(1) [OF assms(1) m0 assms(3)] by simp
  then show ?thesis
    using int_to_text_text_to_int [OF assms(2,4,5)] rsa_encrypt_Inr(1) [OF assms(1-3)] k(1)
    by (simp add: decrypt_cipher_to_text_def)
qed

lemma verify_sign:
  assumes "rsa_key_ok (n, e) (n', d, p, q)" and "text_to_int msg = Inr m" and "m < n"
  shows "sign_text msg (n', d, p, q) = Inr (m ^ nat d mod n)
         \<and> verify_text msg (m ^ nat d mod n) (n, e) = Inr True"
proof -
  have k: "1 < n" "0 < e" using rsa_key_ok_modulus [OF assms(1)] by simp_all
  have m0: "0 \<le> m" using text_to_int_Inr [OF assms(2)] by simp
  have "verify_text msg (m ^ nat d mod n) (n, e) = Inr True"
    using verify_in_range [OF k(1) _ _ _ assms(2), of e "m ^ nat d mod n"] k
      rsa_pow_inverse(2) [OF assms(1) m0 assms(3)]
    by simp
  then show ?thesis using rsa_encrypt_Inr(2) [OF assms] by blast
qed

section \<open>Component properties\<close>

text \<open>
  C1: decrypt-after-encrypt.  For a valid key pair and a message whose integer is
  below \<open>n\<close> and whose UTF-8 form has no leading zero byte, encryption succeeds with a
  ciphertext in \<open>[0, n)\<close> and decryption gives the message back.
\<close>

theorem rsa_roundtrip:
  assumes "rsa_key_ok (n, e) priv" and "text_to_int msg = Inr m" and "m < n"
    and "msg \<noteq> []" and "hd msg \<noteq> 0"
  shows "\<exists>c. encrypt_text_plainstore msg (n, e) = Inr c \<and> 0 \<le> c \<and> c < n
           \<and> decrypt_cipher_to_text c priv = Inr msg"
proof -
  obtain n' d p q where priv: "priv = (n', d, p, q)" by (cases priv) auto
  note ok = assms(1) [unfolded priv]
  have "1 < n" using rsa_key_ok_modulus [OF ok] by simp
  then show ?thesis using decrypt_encrypt [OF ok assms(2-5)] priv by auto
qed

theorem rsa_roundtrip_witness:
  "rsa_key_ok (143, 7) (143, 103, 11, 13) \<and> text_to_int (ascii ''A'') = Inr 65
   \<and> (65::int) < 143 \<and> ascii ''A'' \<noteq> [] \<and> hd (ascii ''A'') \<noteq> 0
   \<and> (\<exists>c. encrypt_text_plainstore (ascii ''A'') (143, 7) = Inr c \<and> 0 \<le> c \<and> c < 143
        \<and> decrypt_cipher_to_text c (143, 103, 11, 13) = Inr (ascii ''A''))"
proof -
  have k: "rsa_key_ok (143, 7) (143, 103, 11, 13)" by code_simp
  have t: "text_to_int (ascii ''A'') = Inr 65"
    by (simp add: text_to_int_def ascii_def utf8_encode_char_def from_bytes_def byte_of_def)
  have h: "ascii ''A'' \<noteq> []" "hd (ascii ''A'') \<noteq> 0" by (simp_all add: ascii_def)
  show ?thesis using k t h rsa_roundtrip [OF k t _ h] by simp
qed

text \<open>
  C2: verify-after-sign.  For a valid key pair, signing a message whose integer is
  below \<open>n\<close> succeeds, and the signature verifies against the message.
\<close>

theorem sign_verify:
  assumes "rsa_key_ok (n, e) (n', d, p, q)" and "text_to_int msg = Inr m" and "m < n"
  shows "\<exists>s. sign_text msg (n', d, p, q) = Inr s \<and> verify_text msg s (n, e) = Inr True"
  using verify_sign [OF assms] by blast

theorem sign_verify_witness:
  "rsa_key_ok (143, 7) (143, 103, 11, 13) \<and> text_to_int (ascii ''A'') = Inr 65 \<and> (65::int) < 143
   \<and> (\<exists>s. sign_text (ascii ''A'') (143, 103, 11, 13) = Inr s
        \<and> verify_text (ascii ''A'') s (143, 7) = Inr True)"
proof -
  have k: "rsa_key_ok (143, 7) (143, 103, 11, 13)" by code_simp
  have t: "text_to_int (ascii ''A'') = Inr 65"
    by (simp add: text_to_int_def ascii_def utf8_encode_char_def from_bytes_def byte_of_def)
  show ?thesis using k t sign_verify [OF k t] by simp
qed

text \<open>
  C9: what a signature proves.  Verifying a signature made with a valid key pair
  against any encodable message succeeds exactly when that message encodes to the same
  integer as the signed one: a message with a different integer is rejected (the spec's
  tampering property), but one that differs only by leading U+0000 characters is
  accepted.
\<close>

theorem verify_signed_iff:
  assumes "rsa_key_ok (n, e) (n', d, p, q)" and "sign_text msg (n', d, p, q) = Inr s"
    and "text_to_int msg' = Inr m'"
  shows "verify_text msg' s (n, e) = Inr (text_to_int msg = Inr m')"
proof -
  obtain m where m: "text_to_int msg = Inr m" "0 \<le> m" "m < n" "s = m ^ nat d mod n"
    using sign_text_Inr [OF assms(1,2)] by blast
  have k: "1 < n" "0 < e" using rsa_key_ok_modulus [OF assms(1)] by simp_all
  have s: "0 \<le> s" "s < n" using m(4) k(1) by simp_all
  have "s ^ nat e mod n = m" using rsa_pow_inverse(2) [OF assms(1) m(2,3)] m(4) by simp
  then show ?thesis using verify_in_range [OF k(1) _ s assms(3)] k(2) m(1) by auto
qed

theorem verify_signed_iff_witness:
  "rsa_key_ok (143, 7) (143, 103, 11, 13) \<and> sign_text (ascii ''A'') (143, 103, 11, 13) = Inr 65
   \<and> text_to_int (ascii ''B'') = Inr 66 \<and> verify_text (ascii ''B'') 65 (143, 7) = Inr False
   \<and> text_to_int [0, 65] = Inr 65 \<and> verify_text [0, 65] 65 (143, 7) = Inr True"
proof -
  have k: "rsa_key_ok (143, 7) (143, 103, 11, 13)" by code_simp
  have t: "text_to_int (ascii ''A'') = Inr 65" "text_to_int (ascii ''B'') = Inr 66"
      "text_to_int [0, 65] = Inr 65"
    by (simp_all add: text_to_int_def ascii_def utf8_encode_char_def from_bytes_def byte_of_def)
  have s: "sign_text (ascii ''A'') (143, 103, 11, 13) = Inr 65"
    using t(1) by (simp add: sign_text_def)
  show ?thesis
    using k s t verify_signed_iff [OF k s t(2)] verify_signed_iff [OF k s t(3)] by simp
qed

text \<open>
  C10: decryption is consistent with encryption: under a valid key pair, a message
  that \<open>decrypt_cipher_to_text\<close> returns for a ciphertext \<open>c\<close> fits the modulus and is
  encrypted back to \<open>c mod n\<close>; so two ciphertexts that differ modulo \<open>n\<close> never
  decrypt to the same message.
\<close>

theorem decrypt_reencrypt:
  assumes "rsa_key_ok (n, e) (n', d, p, q)" and "decrypt_cipher_to_text c (n', d, p, q) = Inr msg"
  shows "encrypt_text_plainstore msg (n, e) = Inr (c mod n)"
proof -
  have k: "n' = n" "1 < n" "0 \<le> d" using rsa_key_ok_modulus [OF assms(1)] by simp_all
  let ?m = "c ^ nat d mod n"
  have "int_to_text ?m = Inr msg" using assms(2) k by (simp add: decrypt_cipher_to_text_def)
  then obtain b where b: "utf8_decode b = Inr msg" "from_bytes b = ?m" using int_to_text_Inr by blast
  have t: "text_to_int msg = Inr ?m" using utf8_decode_Inr [OF b(1)] b(2) by (simp add: text_to_int_def)
  have m: "?m = (c mod n) ^ nat d mod n" by (simp add: power_mod)
  have cn: "0 \<le> c mod n" "c mod n < n" using k(2) by simp_all
  have "(?m ^ nat e) mod n = c mod n"
    unfolding m by (rule rsa_pow_inverse(2) [OF assms(1) cn])
  then show ?thesis using rsa_encrypt_Inr(1) [OF assms(1) t] k(2) by simp
qed

theorem decrypt_reencrypt_witness:
  "rsa_key_ok (143, 7) (143, 103, 11, 13)
   \<and> decrypt_cipher_to_text 234 (143, 103, 11, 13) = Inr [104]
   \<and> encrypt_text_plainstore [104] (143, 7) = Inr 91"
proof -
  have k: "rsa_key_ok (143, 7) (143, 103, 11, 13)" by code_simp
  have "bit_length 104 = 7" by (simp add: bit_length_def bit_length_nat.simps)
  then have "int_to_text 104 = Inr [104]"
    by (simp add: int_to_text_def to_bytes_def utf8_decode.simps decode_char_def cons_char_def)
  then have d: "decrypt_cipher_to_text 234 (143, 103, 11, 13) = Inr [104]"
    by (simp add: decrypt_cipher_to_text_def)
  show ?thesis using k d decrypt_reencrypt [OF k d] by simp
qed

text \<open>
  C19: the errors of encryption.  With a modulus above 1 and a non-negative exponent,
  \<open>encrypt_text_plainstore\<close> fails exactly when the message cannot be encoded (with the
  Codec's error) or its integer is at least \<open>n\<close> (with \<open>MessageTooLarge\<close>); so an
  integer of \<open>n - 1\<close> is encrypted and one of \<open>n\<close> is refused (the spec's boundary).
\<close>

theorem encrypt_error:
  assumes "1 < n" and "0 \<le> e"
  shows "encrypt_text_plainstore msg (n, e) = Inl err \<longleftrightarrow>
           text_to_int msg = Inl err
           \<or> (\<exists>m. text_to_int msg = Inr m \<and> n \<le> m \<and> err = MessageTooLarge)"
  using assms by (cases "text_to_int msg") (auto simp: encrypt_text_plainstore_def)

theorem encrypt_error_witness:
  "text_to_int (ascii ''A'') = Inr 65
   \<and> (\<forall>err. encrypt_text_plainstore (ascii ''A'') (66, 1) \<noteq> Inl err)
   \<and> encrypt_text_plainstore (ascii ''A'') (65, 1) = Inl MessageTooLarge"
proof -
  have t: "text_to_int (ascii ''A'') = Inr 65"
    by (simp add: text_to_int_def ascii_def utf8_encode_char_def from_bytes_def byte_of_def)
  show ?thesis
    using t encrypt_error [of 66 1 "ascii ''A''"] encrypt_error [of 65 1 "ascii ''A''"] by simp
qed

text \<open>
  C21: the errors of verification.  With a modulus above 1 and a non-negative exponent,
  \<open>verify_text\<close> returns \<open>False\<close> for every signature outside \<open>[0, n)\<close>, but for one
  inside it raises \<^verbatim>\<open>UnicodeEncodeError\<close> exactly when the message holds a lone surrogate:
  it does not "never fail" as the spec says.
\<close>

theorem verify_error:
  assumes "1 < n" and "0 \<le> e"
  shows "verify_text msg s (n, e) = Inl err \<longleftrightarrow>
           0 \<le> s \<and> s < n \<and> err = EncodeError \<and> (\<exists>c \<in> set msg. \<not> valid_char c)"
proof (cases "text_to_int msg")
  case (Inl e')
  then show ?thesis using assms text_to_int_error [of msg e'] text_to_int_error [of msg err]
    by (auto simp: verify_text_def)
next
  case (Inr m)
  then show ?thesis using assms text_to_int_Inr [OF Inr] by (auto simp: verify_text_def)
qed

theorem verify_error_witness:
  "verify_text [0xD800] 1 (143, 7) = Inl EncodeError \<and> verify_text [0xD800] 143 (143, 7) = Inr False"
proof -
  have "\<not> valid_char 0xD800" by (simp add: valid_char_def is_surrogate_def)
  then show ?thesis using verify_error [of 143 7 "[0xD800]" 1 EncodeError]
    by (simp add: verify_text_def)
qed

text \<open>
  C20: the only error decryption under a valid key pair can raise is the strict UTF-8
  decoder's \<^verbatim>\<open>UnicodeDecodeError\<close>: \<open>pow\<close> never fails there and \<^verbatim>\<open>int.to_bytes\<close>
  is always given enough bytes.
\<close>

theorem decrypt_error:
  assumes "rsa_key_ok (n, e) priv" and "decrypt_cipher_to_text c priv = Inl err"
  shows "err = DecodeError"
proof -
  obtain n' d p q where priv: "priv = (n', d, p, q)" by (cases priv) auto
  have k: "n' = n" "1 < n" "0 \<le> d" using rsa_key_ok_modulus [OF assms(1) [unfolded priv]] by simp_all
  let ?m = "c ^ nat d mod n"
  have "int_to_text ?m = Inl err"
    using assms(2) k by (simp add: decrypt_cipher_to_text_def priv)
  moreover obtain bs where "int_to_text ?m = utf8_decode bs"
    using int_to_text_nonneg [of ?m] k(2) by auto
  ultimately show ?thesis by (simp add: utf8_decode_Inl)
qed

theorem decrypt_error_witness:
  "rsa_key_ok (143, 7) (143, 103, 11, 13)
   \<and> decrypt_cipher_to_text 28 (143, 103, 11, 13) = Inl DecodeError"
proof -
  have k: "rsa_key_ok (143, 7) (143, 103, 11, 13)" by code_simp
  have "int_to_text 128 = Inl DecodeError"
    by (simp add: int_to_text_def bit_length_def bit_length_nat.simps to_bytes_def
        utf8_decode.simps decode_char_def is_cont_def)
  then have d: "decrypt_cipher_to_text 28 (143, 103, 11, 13) = Inl DecodeError"
    by (simp add: decrypt_cipher_to_text_def)
  show ?thesis using k d decrypt_error [OF k d] by simp
qed

end
