(* ===== verification/KeyGen.thy ===== *)
theory KeyGen
  imports Primality Crypto
begin

text \<open>
  The KeyGenerator component of src/RSA.py: \<^verbatim>\<open>generate_prime\<close> (lines 32--38) and
  \<^verbatim>\<open>generate_keypair\<close> (lines 55--74).  Each of their three \<^verbatim>\<open>while\<close> loops may run
  forever on an unlucky random source, so each is a \<^theory_text>\<open>partial_function (option)\<close>
  over the random tape, \<open>None\<close> being the run that never returns:
  \<^item> \<open>prime_search\<close>: the rejection-sampling loop of \<^verbatim>\<open>generate_prime\<close>;
  \<^item> \<open>redraw_q\<close>: \<^verbatim>\<open>while q == p: q = generate_prime(prime_bits)\<close>;
  \<^item> \<open>choose_e\<close>: the fallback loop that draws a public exponent when
    \<^verbatim>\<open>gcd(65537, phi) != 1\<close>.
  A result of \<open>Some (Inl err)\<close> is an exception of the code, \<open>Some (Inr (x, s))\<close> a
  return value together with the rest of the random tape.
\<close>

unbundle bit_operations_syntax

text \<open>\<^verbatim>\<open>secrets.randbits(bits) | (1 << (bits - 1)) | 1\<close>\<close>

definition prime_candidate :: "nat \<Rightarrow> int \<Rightarrow> int" where
  "prime_candidate bits r = (r OR push_bit (bits - 1) 1) OR 1"

partial_function (option) prime_search :: "nat \<Rightarrow> rand_src \<Rightarrow> (int \<times> rand_src) option" where
  "prime_search bits s =
     (case randbits bits s of (r, s1) \<Rightarrow>
        (let cand = prime_candidate bits r in
         case is_probable_prime cand mr_rounds_default s1 of
           None \<Rightarrow> None
         | Some (b, s2) \<Rightarrow> if b then Some (cand, s2) else prime_search bits s2))"

definition generate_prime :: "int \<Rightarrow> rand_src \<Rightarrow> (error + int \<times> rand_src) option" where
  "generate_prime bits s =
     (if bits < 2 then Some (Inl InvalidInput) else map_option Inr (prime_search (nat bits) s))"

partial_function (option) redraw_q ::
  "int \<Rightarrow> int \<Rightarrow> int \<Rightarrow> rand_src \<Rightarrow> (error + int \<times> rand_src) option" where
  "redraw_q prime_bits p q s =
     (if q = p then
        (case generate_prime prime_bits s of
           None \<Rightarrow> None
         | Some (Inl err) \<Rightarrow> Some (Inl err)
         | Some (Inr (q', s')) \<Rightarrow> redraw_q prime_bits p q' s')
      else Some (Inr (q, s)))"

partial_function (option) choose_e :: "int \<Rightarrow> rand_src \<Rightarrow> (int \<times> rand_src) option" where
  "choose_e phi s =
     (case randbelow (phi - 3) s of (e0, s') \<Rightarrow>
        (let e = e0 + 2; e = (if e mod 2 = 0 then e + 1 else e) in
         if gcd e phi = 1 then Some (e, s') else choose_e phi s'))"

definition generate_keypair ::
  "int \<Rightarrow> rand_src \<Rightarrow> (error + (pubkey \<times> privkey) \<times> rand_src) option" where
  "generate_keypair prime_bits s =
     (case generate_prime prime_bits s of
        None \<Rightarrow> None
      | Some (Inl err) \<Rightarrow> Some (Inl err)
      | Some (Inr (p, s1)) \<Rightarrow>
     (case generate_prime prime_bits s1 of
        None \<Rightarrow> None
      | Some (Inl err) \<Rightarrow> Some (Inl err)
      | Some (Inr (q0, s2)) \<Rightarrow>
     (case redraw_q prime_bits p q0 s2 of
        None \<Rightarrow> None
      | Some (Inl err) \<Rightarrow> Some (Inl err)
      | Some (Inr (q, s3)) \<Rightarrow>
     (let n = p * q; phi = (p - 1) * (q - 1) in
      case (if gcd 65537 phi \<noteq> 1 then choose_e phi s3 else Some (65537, s3)) of
        None \<Rightarrow> None
      | Some (e, s4) \<Rightarrow>
     (case modinv e phi of
        Inl err \<Rightarrow> Some (Inl err)
      | Inr d \<Rightarrow> Some (Inr (((n, e), (n, d, p, q)), s4)))))))"

text \<open>
  The runs of the rejection-sampling loop: \<open>search_rejects bits s s'\<close> holds when the
  loop, started on the tape \<open>s\<close>, rejects candidate after candidate and comes back to
  its head with the tape \<open>s'\<close>.
\<close>

inductive search_rejects :: "nat \<Rightarrow> rand_src \<Rightarrow> rand_src \<Rightarrow> bool" where
  stop: "search_rejects bits s s"
| reject: "randbits bits s = (r, s1)
    \<Longrightarrow> is_probable_prime (prime_candidate bits r) mr_rounds_default s1 = Some (False, s2)
    \<Longrightarrow> search_rejects bits s2 s' \<Longrightarrow> search_rejects bits s s'"

text \<open>
  What \<^verbatim>\<open>generate_prime(bits)\<close> promises of its result: \<open>bits\<close> bits long, odd, and
  accepted by the Miller--Rabin test.
\<close>

definition keygen_prime :: "nat \<Rightarrow> int \<Rightarrow> bool" where
  "keygen_prime bits c \<longleftrightarrow> 2 ^ (bits - 1) \<le> c \<and> c < 2 ^ bits \<and> odd c
     \<and> (\<exists>s0 s'. is_probable_prime c mr_rounds_default s0 = Some (True, s'))"

text \<open>The invariant of a key pair returned by \<^verbatim>\<open>generate_keypair(bits)\<close>.\<close>

definition keypair_inv :: "nat \<Rightarrow> pubkey \<Rightarrow> privkey \<Rightarrow> bool" where
  "keypair_inv bits pub priv \<longleftrightarrow> (case pub of (n, e) \<Rightarrow> case priv of (n', d, p, q) \<Rightarrow>
     n' = n \<and> n = p * q \<and> p \<noteq> q \<and> keygen_prime bits p \<and> keygen_prime bits q
     \<and> 1 < e \<and> gcd e ((p - 1) * (q - 1)) = 1
     \<and> 0 \<le> d \<and> d < (p - 1) * (q - 1) \<and> (e * d) mod ((p - 1) * (q - 1)) = 1)"

section \<open>The candidate of generate_prime\<close>

lemma prime_candidate_range:
  assumes "0 < bits" and "0 \<le> r" and "r < 2 ^ bits"
  shows "2 ^ (bits - 1) \<le> prime_candidate bits r \<and> prime_candidate bits r < 2 ^ bits
         \<and> odd (prime_candidate bits r)"
proof -
  let ?t = "push_bit (bits - 1) (1::int)"
  have t: "?t = 2 ^ (bits - 1)" by (simp add: push_bit_eq_mult)
  have t_less: "?t < 2 ^ bits" using assms(1) by (simp add: t power_strict_increasing_iff)
  have one_less: "(1::int) < 2 ^ bits" using assms(1) by simp
  have lt: "r OR ?t < 2 ^ bits" using assms(2,3) t_less by (rule OR_upper)
  have nn: "0 \<le> r OR ?t" using assms(2) by simp
  have up: "(r OR ?t) OR 1 < 2 ^ bits" using OR_upper [OF nn lt one_less] .
  have "?t \<le> ?t OR r" by (rule or_greater_eq) (use assms(2) in simp)
  also have "\<dots> = r OR ?t" by (rule or.commute)
  also have "\<dots> \<le> (r OR ?t) OR 1" by (rule or_greater_eq) simp
  finally have lo: "2 ^ (bits - 1) \<le> (r OR ?t) OR 1" by (simp only: t)
  have "odd ((r OR ?t) OR 1)" by (simp add: bit_0 [symmetric] bit_or_iff)
  then show ?thesis using up lo by (simp add: prime_candidate_def)
qed

lemma prime_candidate_2: "0 \<le> r \<Longrightarrow> r < 4 \<Longrightarrow> prime_candidate 2 r = 3"
  by (cases "r = 0 \<or> r = 1 \<or> r = 2 \<or> r = 3") (auto simp: prime_candidate_def)


section \<open>The rejection-sampling loop\<close>

lemma prime_search_unfold:
  assumes "randbits bits s = (r, s1)"
  shows "prime_search bits s =
     (case is_probable_prime (prime_candidate bits r) mr_rounds_default s1 of
        None \<Rightarrow> None
      | Some (b, s2) \<Rightarrow> if b then Some (prime_candidate bits r, s2) else prime_search bits s2)"
  using assms by (subst prime_search.simps) (simp add: Let_def)

lemma prime_search_Some:
  assumes "prime_search bits s = Some (c, s')" and "0 < bits"
  shows "keygen_prime bits c"
proof -
  have "0 < bits \<longrightarrow> keygen_prime bits (fst y)" if ret: "prime_search bits s = Some y" for bits s y
  proof (rule prime_search.raw_induct [where P = "\<lambda>bits s y. 0 < bits \<longrightarrow> keygen_prime bits (fst y)",
        OF _ ret])
    fix f :: "nat \<Rightarrow> rand_src \<Rightarrow> (int \<times> rand_src) option" and bits s y
    assume IH: "\<And>bits s y. f bits s = Some y \<Longrightarrow> 0 < bits \<longrightarrow> keygen_prime bits (fst y)"
      and eq: "(case randbits bits s of (r, s1) \<Rightarrow>
        (let cand = prime_candidate bits r in
         case is_probable_prime cand mr_rounds_default s1 of
           None \<Rightarrow> None
         | Some (b, s2) \<Rightarrow> if b then Some (cand, s2) else f bits s2)) = Some y"
    obtain r s1 where rb: "randbits bits s = (r, s1)" by (cases "randbits bits s")
    have r: "0 \<le> r" "r < 2 ^ bits" using randbits_range [of bits s] rb by simp_all
    let ?c = "prime_candidate bits r"
    show "0 < bits \<longrightarrow> keygen_prime bits (fst y)"
    proof (cases "is_probable_prime ?c mr_rounds_default s1")
      case None
      then show ?thesis using eq rb by simp
    next
      case (Some bs)
      obtain b s2 where bs: "bs = (b, s2)" by (cases bs)
      show ?thesis
      proof (cases b)
        case True
        then have "y = (?c, s2)" using eq rb Some bs by simp
        then show ?thesis using prime_candidate_range [of bits r] r Some bs True
          by (auto simp: keygen_prime_def)
      next
        case False
        then have "f bits s2 = Some y" using eq rb Some bs by simp
        then show ?thesis by (rule IH)
      qed
    qed
  qed
  then show ?thesis using assms by fastforce
qed

lemma prime_search_live:
  assumes "search_rejects bits s s'" and "is_prime (prime_candidate bits (fst (randbits bits s')))"
  shows "\<exists>c t. prime_search bits s = Some (c, t)"
  using assms
proof (induction rule: search_rejects.induct)
  case (stop bits s)
  obtain r s1 where rb: "randbits bits s = (r, s1)" by (cases "randbits bits s")
  obtain s2 where "is_probable_prime (prime_candidate bits r) mr_rounds_default s1 = Some (True, s2)"
    using mr_accepts_prime stop.prems rb by fastforce
  then show ?case using prime_search_unfold [OF rb] by simp
next
  case (reject bits s r s1 s2 s')
  then show ?case using prime_search_unfold [OF reject.hyps(1)] by simp
qed

section \<open>generate_prime\<close>

lemma generate_prime_Inr:
  assumes "generate_prime bits s = Some (Inr (p, s'))"
  shows "2 \<le> bits \<and> keygen_prime (nat bits) p"
proof -
  have b: "2 \<le> bits" using assms by (simp add: generate_prime_def split: if_splits)
  then have "prime_search (nat bits) s = Some (p, s')" using assms by (simp add: generate_prime_def)
  then show ?thesis using b prime_search_Some [of "nat bits" s p s'] by simp
qed

lemma generate_prime_Inl:
  "generate_prime bits s = Some (Inl err) \<longleftrightarrow> bits < 2 \<and> err = InvalidInput"
  by (auto simp: generate_prime_def)

lemma keygen_prime_ge3: "keygen_prime bits p \<Longrightarrow> 2 \<le> bits \<Longrightarrow> 3 \<le> p"
proof -
  assume kp: "keygen_prime bits p" and b: "2 \<le> bits"
  have "(2::int) ^ 1 \<le> 2 ^ (bits - 1)" using b by (intro power_increasing) simp_all
  then have "2 \<le> p" "odd p" using kp by (simp_all add: keygen_prime_def)
  then show "3 \<le> p" by presburger
qed

section \<open>The loops of generate_keypair\<close>

lemma redraw_q_Some:
  assumes "redraw_q bits p q s = Some y" and "2 \<le> bits" and "keygen_prime (nat bits) q"
  shows "\<exists>q' s'. y = Inr (q', s') \<and> q' \<noteq> p \<and> keygen_prime (nat bits) q'"
proof -
  let ?P = "\<lambda>bits p q s y. 2 \<le> bits \<longrightarrow> keygen_prime (nat bits) q
              \<longrightarrow> (\<exists>q' s'. y = Inr (q', s') \<and> q' \<noteq> p \<and> keygen_prime (nat bits) q')"
  have "?P bits p q s y"
  proof (rule redraw_q.raw_induct [where P = ?P, OF _ assms(1)])
    fix f :: "int \<Rightarrow> int \<Rightarrow> int \<Rightarrow> rand_src \<Rightarrow> (error + int \<times> rand_src) option"
      and bits p q s y
    assume IH: "\<And>bits p q s y. f bits p q s = Some y \<Longrightarrow> ?P bits p q s y"
      and eq: "(if q = p then
        (case generate_prime bits s of
           None \<Rightarrow> None
         | Some (Inl err) \<Rightarrow> Some (Inl err)
         | Some (Inr (q', s')) \<Rightarrow> f bits p q' s')
      else Some (Inr (q, s))) = Some y"
    show "?P bits p q s y"
    proof (intro impI)
      assume b: "2 \<le> bits" and kq: "keygen_prime (nat bits) q"
      show "\<exists>q' s'. y = Inr (q', s') \<and> q' \<noteq> p \<and> keygen_prime (nat bits) q'"
      proof (cases "q = p")
        case False
        then show ?thesis using eq kq by auto
      next
        case True
        then obtain r where r: "generate_prime bits s = Some r" using eq by fastforce
        have "\<not> bits < 2" using b by simp
        then obtain q' s' where r': "r = Inr (q', s')"
          using r generate_prime_Inl [of bits s] by (cases r) auto
        have "f bits p q' s' = Some y" using eq True r r' by simp
        then show ?thesis using IH b generate_prime_Inr [of bits s q' s'] r r' by blast
      qed
    qed
  qed
  then show ?thesis using assms(2,3) by blast
qed

lemma choose_e_Some:
  assumes "choose_e phi s = Some (e, s')" and "3 < phi"
  shows "1 < e \<and> e < phi \<and> gcd e phi = 1"
proof -
  let ?P = "\<lambda>phi s y. 3 < phi \<longrightarrow> 1 < fst y \<and> fst y < phi \<and> gcd (fst y) phi = 1"
  have "?P phi s (e, s')"
  proof (rule choose_e.raw_induct [where P = ?P, OF _ assms(1)])
    fix f :: "int \<Rightarrow> rand_src \<Rightarrow> (int \<times> rand_src) option" and phi s y
    assume IH: "\<And>phi s y. f phi s = Some y \<Longrightarrow> ?P phi s y"
      and eq: "(case randbelow (phi - 3) s of (e0, s') \<Rightarrow>
        (let e = e0 + 2; e = (if e mod 2 = 0 then e + 1 else e) in
         if gcd e phi = 1 then Some (e, s') else f phi s')) = Some y"
    show "?P phi s y"
    proof
      assume phi: "3 < phi"
      obtain e0 s1 where rb: "randbelow (phi - 3) s = (e0, s1)" by (cases "randbelow (phi - 3) s")
      have e0: "0 \<le> e0" "e0 < phi - 3" using randbelow_range [of "phi - 3" s] rb phi by simp_all
      define e where "e = (if (e0 + 2) mod 2 = 0 then e0 + 2 + 1 else e0 + 2)"
      have e: "1 < e" "e < phi" using e0 by (simp_all add: e_def)
      have eq': "(if gcd e phi = 1 then Some (e, s1) else f phi s1) = Some y"
        using eq by (simp only: rb prod.case Let_def e_def)
      show "1 < fst y \<and> fst y < phi \<and> gcd (fst y) phi = 1"
      proof (cases "gcd e phi = 1")
        case True
        then show ?thesis using eq' e by auto
      next
        case False
        then show ?thesis using eq' IH phi by auto
      qed
    qed
  qed
  then show ?thesis using assms(2) by simp
qed

lemma phi_gt3:
  assumes "keygen_prime bits p" and "keygen_prime bits q" and "2 \<le> bits" and "p \<noteq> q"
  shows "3 < (p - 1) * (q - 1)"
proof -
  have p: "3 \<le> p" "odd p" and q: "3 \<le> q" "odd q"
    using assms keygen_prime_ge3 by (auto simp: keygen_prime_def)
  have "5 \<le> p \<or> 5 \<le> q" using p q assms(4) by presburger
  then show ?thesis
  proof
    assume "5 \<le> p"
    then have "4 * 2 \<le> (p - 1) * (q - 1)" using q(1) by (intro mult_mono) simp_all
    then show ?thesis by simp
  next
    assume "5 \<le> q"
    then have "2 * 4 \<le> (p - 1) * (q - 1)" using p(1) by (intro mult_mono) simp_all
    then show ?thesis by simp
  qed
qed

section \<open>generate_keypair\<close>

lemma generate_prime_Some:
  assumes "2 \<le> bits" and "generate_prime bits s = Some r"
  shows "\<exists>p s'. r = Inr (p, s') \<and> keygen_prime (nat bits) p"
proof (cases r)
  case (Inl err)
  then show ?thesis using assms generate_prime_Inl [of bits s err] by simp
next
  case (Inr ps)
  obtain p s' where ps: "ps = (p, s')" by (cases ps)
  then show ?thesis using Inr assms generate_prime_Inr [of bits s p s'] by simp
qed

lemma public_exponent:
  assumes "3 < phi" and "(if gcd 65537 phi \<noteq> 1 then choose_e phi s else Some (65537, s)) = Some (e, s')"
  shows "1 < e \<and> gcd e phi = 1"
proof (cases "gcd 65537 phi \<noteq> 1")
  case True
  then show ?thesis using assms choose_e_Some [of phi s e s'] by simp
next
  case False
  then show ?thesis using assms by auto
qed

lemma private_exponent:
  assumes "1 < phi" and "gcd e phi = 1"
  shows "\<exists>d. modinv e phi = Inr d \<and> 0 \<le> d \<and> d < phi \<and> (e * d) mod phi = 1"
proof -
  obtain d where d: "modinv e phi = Inr d"
    using modinv_Inl_iff [of phi e] assms by (cases "modinv e phi") auto
  then show ?thesis using modinv_Inr [of phi e d] assms(1) by (auto simp: is_inverse_mod_def)
qed

lemma generate_keypair_unfold:
  assumes "generate_prime bits s = Some (Inr (p, s1))" and "generate_prime bits s1 = Some (Inr (q0, s2))"
    and "redraw_q bits p q0 s2 = Some (Inr (q, s3))"
  shows "generate_keypair bits s =
    (case (if gcd 65537 ((p - 1) * (q - 1)) \<noteq> 1 then choose_e ((p - 1) * (q - 1)) s3 else Some (65537, s3)) of
        None \<Rightarrow> None
      | Some (e, s4) \<Rightarrow>
     (case modinv e ((p - 1) * (q - 1)) of
        Inl err \<Rightarrow> Some (Inl err)
      | Inr d \<Rightarrow> Some (Inr (((p * q, e), (p * q, d, p, q)), s4))))"
  using assms by (simp only: generate_keypair_def Let_def option.case sum.case prod.case)

lemma generate_keypair_Some:
  assumes "generate_keypair bits s = Some r" and "2 \<le> bits"
  shows "\<exists>n e d p q s'. r = Inr (((n, e), (n, d, p, q)), s') \<and> keypair_inv (nat bits) (n, e) (n, d, p, q)"
proof -
  obtain r1 where g1: "generate_prime bits s = Some r1"
    using assms(1) by (cases "generate_prime bits s") (simp_all add: generate_keypair_def)
  obtain p s1 where r1: "r1 = Inr (p, s1)" and kp: "keygen_prime (nat bits) p"
    using generate_prime_Some [OF assms(2) g1] by blast
  obtain r2 where g2: "generate_prime bits s1 = Some r2"
    using assms(1) g1 r1 by (cases "generate_prime bits s1") (simp_all add: generate_keypair_def)
  obtain q0 s2 where r2: "r2 = Inr (q0, s2)" and kq0: "keygen_prime (nat bits) q0"
    using generate_prime_Some [OF assms(2) g2] by blast
  obtain y where rq: "redraw_q bits p q0 s2 = Some y"
    using assms(1) g1 r1 g2 r2 by (cases "redraw_q bits p q0 s2") (simp_all add: generate_keypair_def)
  obtain q s3 where y: "y = Inr (q, s3)" "q \<noteq> p" and kq: "keygen_prime (nat bits) q"
    using redraw_q_Some [OF rq assms(2) kq0] by blast
  note unfold = generate_keypair_unfold [OF g1 [unfolded r1] g2 [unfolded r2] rq [unfolded y(1)]]
  let ?phi = "(p - 1) * (q - 1)"
  have phi: "3 < ?phi" using phi_gt3 [OF kp kq] assms(2) y(2) by simp
  obtain es where ce: "(if gcd 65537 ?phi \<noteq> 1 then choose_e ?phi s3 else Some (65537, s3)) = Some es"
    using assms(1) unfolding unfold by (auto split: option.splits)
  obtain e s4 where es: "es = (e, s4)" by (cases es)
  have e: "1 < e" "gcd e ?phi = 1" using public_exponent [OF phi ce [unfolded es]] by simp_all
  obtain d where d: "modinv e ?phi = Inr d" "0 \<le> d" "d < ?phi" "(e * d) mod ?phi = 1"
    using private_exponent [OF _ e(2)] phi by auto
  have "r = Inr (((p * q, e), (p * q, d, p, q)), s4)"
    using assms(1) unfolding unfold ce es by (simp add: d(1))
  moreover have "keypair_inv (nat bits) (p * q, e) (p * q, d, p, q)"
    using kp kq y(2) e d by (simp add: keypair_inv_def)
  ultimately show ?thesis by blast
qed

lemma generate_keypair_small: "bits < 2 \<Longrightarrow> generate_keypair bits s = Some (Inl InvalidInput)"
  by (simp add: generate_keypair_def generate_prime_def)

lemma keypair_inv_primes:
  assumes "keypair_inv bits (n, e) (n', d, p, q)" and "bits \<le> 9"
  shows "is_prime p \<and> is_prime q"
proof -
  have small: "c < 961" "is_prime c" if kc: "keygen_prime bits c" for c
  proof -
    have "c < 2 ^ bits" using kc by (simp add: keygen_prime_def)
    moreover have "(2::int) ^ bits \<le> 2 ^ 9" using assms(2) by (intro power_increasing) simp_all
    ultimately show c: "c < 961" by simp
    obtain s0 s' where "is_probable_prime c mr_rounds_default s0 = Some (True, s')"
      using kc unfolding keygen_prime_def by blast
    then show "is_prime c" using mr_exact_below_961 [OF c, of mr_rounds_default s0] by auto
  qed
  show ?thesis using assms(1) small(2) by (simp add: keypair_inv_def)
qed

lemma keypair_inv_key_ok:
  assumes "keypair_inv bits (n, e) (n', d, p, q)" and "is_prime p" and "is_prime q"
  shows "rsa_key_ok (n, e) (n', d, p, q)"
  using assms by (simp add: keypair_inv_def rsa_key_ok_def)

section \<open>A key size the code never returns for\<close>

lemma prime_search_2: "prime_search 2 s = Some (3, stl s)"
proof -
  obtain r s1 where rb: "randbits 2 s = (r, s1)" by (cases "randbits 2 s")
  have r: "0 \<le> r" "r < 4" using randbits_range [of 2 s] rb by simp_all
  have s1: "s1 = stl s" using randbits_snd [of 2 s] by (simp add: rb)
  have "is_probable_prime 3 mr_rounds_default s1 = Some (True, s1)"
    by (simp add: is_probable_prime_def small_primes_def)
  then show ?thesis using prime_search_unfold [OF rb] prime_candidate_2 [OF r(1,2)] s1 by simp
qed

lemma redraw_q_2_diverges: "redraw_q 2 3 3 s = None"
proof -
  let ?P = "\<lambda>bits p q s y. \<not> (bits = 2 \<and> p = 3 \<and> q = 3)"
  have live: "?P bits p q s y" if ret: "redraw_q bits p q s = Some y" for bits p q s y
  proof (rule redraw_q.raw_induct [where P = ?P, OF _ ret])
    fix f :: "int \<Rightarrow> int \<Rightarrow> int \<Rightarrow> rand_src \<Rightarrow> (error + int \<times> rand_src) option"
      and bits p q s y
    assume IH: "\<And>bits p q s y. f bits p q s = Some y \<Longrightarrow> ?P bits p q s y"
      and eq: "(if q = p then
        (case generate_prime bits s of
           None \<Rightarrow> None
         | Some (Inl err) \<Rightarrow> Some (Inl err)
         | Some (Inr (q', s')) \<Rightarrow> f bits p q' s')
      else Some (Inr (q, s))) = Some y"
    show "?P bits p q s y"
    proof
      assume b: "bits = 2 \<and> p = 3 \<and> q = 3"
      then have "generate_prime bits s = Some (Inr (3, stl s))"
        by (simp add: generate_prime_def prime_search_2)
      then have "f 2 3 3 (stl s) = Some y" using eq b by simp
      then show False using IH by blast
    qed
  qed
  show ?thesis
  proof (cases "redraw_q 2 3 3 s")
    case (Some y)
    from live [OF this] show ?thesis by simp
  qed simp
qed

section \<open>Concrete runs\<close>

lemma prime_search_run:
  assumes "randbits bits s = (r, s1)" and "trial_division (prime_candidate bits r) small_primes = Some b"
    and "2 \<le> prime_candidate bits r"
  shows "prime_search bits s = (if b then Some (prime_candidate bits r, s1) else prime_search bits s1)"
  using prime_search_unfold [OF assms(1)] assms(2,3) by (simp add: is_probable_prime_def)

lemma keypair_run_5:
  "generate_keypair 5 (0 ## 2 ## sconst 0) = Some (Inr (((323, 65537), (323, 161, 17, 19)), sconst 0))"
proof -
  have c: "prime_candidate 5 0 = 17" "prime_candidate 5 2 = 19" by (simp_all add: prime_candidate_def)
  have "prime_search 5 (0 ## 2 ## sconst 0) = Some (17, 2 ## sconst 0)"
    using prime_search_run [of 5 "0 ## 2 ## sconst 0" 0 "2 ## sconst 0" True]
    by (simp add: c randbits_def small_primes_def)
  moreover have "prime_search 5 (2 ## sconst 0) = Some (19, sconst 0)"
    using prime_search_run [of 5 "2 ## sconst 0" 2 "sconst 0" True]
    by (simp add: c randbits_def small_primes_def)
  moreover have "redraw_q 5 17 19 (sconst 0) = Some (Inr (19, sconst 0))"
    by (simp add: redraw_q.simps)
  moreover have "gcd (65537::int) 288 = 1" by code_simp
  moreover have "modinv 65537 288 = Inr 161" by (simp add: modinv_def egcd_step)
  ultimately show ?thesis by (simp add: generate_keypair_def generate_prime_def)
qed


section \<open>Component properties\<close>

text \<open>
  C3: every key pair \<^verbatim>\<open>generate_keypair\<close> returns satisfies the key-pair invariant:
  \<open>n = p * q\<close> for two distinct odd \<open>bits\<close>-bit numbers accepted by Miller--Rabin,
  \<open>gcd e \<phi> = 1\<close>, and \<open>d\<close> in \<open>[0, \<phi>)\<close> with \<open>e * d mod \<phi> = 1\<close>
  (the spec's first testable property).
\<close>

theorem generate_keypair_inv:
  assumes "generate_keypair bits s = Some (Inr ((pub, priv), s'))"
  shows "keypair_inv (nat bits) pub priv"
proof -
  have "2 \<le> bits" using assms generate_keypair_small [of bits s] by (cases "bits < 2") auto
  then show ?thesis using generate_keypair_Some [OF assms] by auto
qed

theorem generate_keypair_inv_witness:
  "generate_keypair 5 (0 ## 2 ## sconst 0) = Some (Inr (((323, 65537), (323, 161, 17, 19)), sconst 0))
   \<and> keypair_inv 5 (323, 65537) (323, 161, 17, 19)"
  using keypair_run_5 generate_keypair_inv [OF keypair_run_5] by simp

text \<open>
  C18: the only exception \<^verbatim>\<open>generate_keypair\<close> raises is \<^verbatim>\<open>generate_prime\<close>'s
  \<^verbatim>\<open>ValueError\<close> for \<open>prime_bits < 2\<close>: the \<^verbatim>\<open>modinv\<close> call never fails, since the
  exponent it inverts is coprime to \<open>\<phi>\<close> (the spec calls \<open>NoInverse\<close> unreachable).
\<close>

theorem generate_keypair_error:
  "generate_keypair bits s = Some (Inl err) \<longleftrightarrow> bits < 2 \<and> err = InvalidInput"
proof
  assume r: "generate_keypair bits s = Some (Inl err)"
  show "bits < 2 \<and> err = InvalidInput"
  proof (cases "bits < 2")
    case True
    then show ?thesis using r generate_keypair_small [OF True, of s] by simp
  next
    case False
    then show ?thesis using generate_keypair_Some [OF r] by simp
  qed
next
  assume "bits < 2 \<and> err = InvalidInput"
  then show "generate_keypair bits s = Some (Inl err)"
    using generate_keypair_small [of bits s] by simp
qed


text \<open>
  C11: the key pairs of small key sizes are valid RSA key pairs: for \<open>prime_bits \<le> 9\<close>
  the primes are below 961, where Miller--Rabin is exact, so the engine's contract
  \<open>rsa_key_ok\<close> holds; for larger sizes it holds as soon as both accepted numbers are
  prime, that is, unless Miller--Rabin was wrong.
\<close>

theorem generated_key_ok:
  assumes "generate_keypair bits s = Some (Inr (((n, e), (n', d, p, q)), s'))"
    and "nat bits \<le> 9 \<or> (is_prime p \<and> is_prime q)"
  shows "rsa_key_ok (n, e) (n', d, p, q)"
proof -
  have b: "2 \<le> bits" using assms(1) generate_keypair_small [of bits s] by (cases "bits < 2") auto
  obtain n1 e1 d1 p1 q1 s1 where r: "Inr (((n, e), (n', d, p, q)), s') = (Inr (((n1, e1), (n1, d1, p1, q1)), s1)
      :: error + (pubkey \<times> privkey) \<times> rand_src)"
    and inv: "keypair_inv (nat bits) (n1, e1) (n1, d1, p1, q1)"
    using generate_keypair_Some [OF assms(1) b] by blast
  have inv': "keypair_inv (nat bits) (n, e) (n', d, p, q)" using r inv by simp
  have "is_prime p \<and> is_prime q" using assms(2) keypair_inv_primes [OF inv'] by blast
  then show ?thesis using keypair_inv_key_ok [OF inv'] by blast
qed

theorem generated_key_ok_witness:
  "generate_keypair 5 (0 ## 2 ## sconst 0) = Some (Inr (((323, 65537), (323, 161, 17, 19)), sconst 0))
   \<and> rsa_key_ok (323, 65537) (323, 161, 17, 19)"
  using keypair_run_5 generated_key_ok [OF keypair_run_5] by simp

text \<open>
  C16: liveness of the prime search: if the loop, after rejecting any number of
  candidates, draws a prime candidate, \<^verbatim>\<open>generate_prime\<close> returns (Miller--Rabin never
  rejects a prime).  Whether the random source ever produces one is outside the model.
\<close>

theorem generate_prime_live:
  assumes "2 \<le> bits" and "search_rejects (nat bits) s s'"
    and "is_prime (prime_candidate (nat bits) (fst (randbits (nat bits) s')))"
  shows "\<exists>p t. generate_prime bits s = Some (Inr (p, t))"
  using prime_search_live [OF assms(2,3)] assms(1) by (auto simp: generate_prime_def)

theorem generate_prime_live_witness:
  "search_rejects 4 (0 ## 2 ## sconst 0) (2 ## sconst 0)
   \<and> is_prime (prime_candidate 4 (fst (randbits 4 (2 ## sconst 0))))
   \<and> (\<exists>p t. generate_prime 4 (0 ## 2 ## sconst 0) = Some (Inr (p, t)))"
proof -
  have c: "prime_candidate 4 0 = 9" "prime_candidate 4 2 = 11" by (simp_all add: prime_candidate_def)
  have rb: "randbits 4 (0 ## 2 ## sconst 0) = (0, 2 ## sconst 0)" "fst (randbits 4 (2 ## sconst 0)) = 2"
    by (simp_all add: randbits_def)
  have "is_probable_prime 9 mr_rounds_default (2 ## sconst 0) = Some (False, 2 ## sconst 0)"
    by (simp add: is_probable_prime_def small_primes_def)
  then have r: "search_rejects 4 (0 ## 2 ## sconst 0) (2 ## sconst 0)"
    using search_rejects.reject [OF rb(1)] search_rejects.stop c by simp
  have p: "is_prime (prime_candidate 4 (fst (randbits 4 (2 ## sconst 0))))"
    unfolding rb(2) c(2) by code_simp
  have "\<exists>p t. generate_prime 4 (0 ## 2 ## sconst 0) = Some (Inr (p, t))"
    using generate_prime_live [of 4 "0 ## 2 ## sconst 0" "2 ## sconst 0"] r p by simp
  then show ?thesis using r p by blast
qed

text \<open>
  C15: the prime search returns only candidates of the requested size: \<open>bits\<close> bits
  long (top bit set), odd, and accepted by Miller--Rabin; and only for \<open>bits \<ge> 2\<close>.
\<close>

theorem generate_prime_bounds:
  assumes "generate_prime bits s = Some (Inr (p, s'))"
  shows "2 \<le> bits \<and> 2 ^ (nat bits - 1) \<le> p \<and> p < 2 ^ nat bits \<and> odd p
         \<and> (\<exists>s0 s1. is_probable_prime p mr_rounds_default s0 = Some (True, s1))"
  using generate_prime_Inr [OF assms] by (simp add: keygen_prime_def)

theorem generate_prime_bounds_witness:
  "generate_prime 5 (0 ## 2 ## sconst 0) = Some (Inr (17, 2 ## sconst 0))
   \<and> (16::int) \<le> 17 \<and> (17::int) < 32"
proof -
  have c: "prime_candidate 5 0 = 17" by (simp add: prime_candidate_def)
  have g: "generate_prime 5 (0 ## 2 ## sconst 0) = Some (Inr (17, 2 ## sconst 0))"
    using prime_search_run [of 5 "0 ## 2 ## sconst 0" 0 "2 ## sconst 0" True]
    by (simp add: c randbits_def small_primes_def generate_prime_def)
  show ?thesis using g generate_prime_bounds [OF g] by simp
qed

text \<open>
  C25: \<^verbatim>\<open>generate_keypair(2)\<close> never returns, whatever the random source: the only
  2-bit candidate is \<open>3\<close>, so \<open>q\<close> is drawn equal to \<open>p\<close> forever, although the spec
  and \<^verbatim>\<open>generate_prime\<close> accept \<open>bits = 2\<close>.
\<close>

theorem generate_keypair_2_diverges:
  "generate_keypair 2 s = None"
proof -
  have "generate_prime 2 s' = Some (Inr (3, stl s'))" for s'
    by (simp add: generate_prime_def prime_search_2)
  then show ?thesis by (simp add: generate_keypair_def redraw_q_2_diverges)
qed

end
