(* ===== verification/App.thy ===== *)
theory App
  imports KeyGen
begin

text \<open>
  The interactive layer of src/RSA.py (lines 113--262): the module-level key pair and
  the stores \<^verbatim>\<open>MESSAGES\<close> and \<^verbatim>\<open>SIGNATURES\<close>, and the three menu loops
  \<^verbatim>\<open>main_menu\<close>, \<^verbatim>\<open>public_user_menu\<close> and \<^verbatim>\<open>owner_menu\<close>.  The globals are the
  record \<open>app_state\<close>; the point of the program where the next \<^verbatim>\<open>input()\<close> is read is
  its \<open>screen\<close>.  One step (\<open>app_step\<close>) reads one input line and runs the code up to
  the next \<^verbatim>\<open>input()\<close>, returning the new state and what it printed; \<open>None\<close> is a
  step that never returns (a key generation that loops), and an exception nothing
  catches leaves the program on the screen \<open>Crashed\<close>.  The fixed menu banners are
  not recorded, only the lines that depend on the state.
\<close>

datatype screen =
    MainMenu
  | PublicMenu
  | PublicMessage
  | PublicSelect
  | OwnerMenu
  | OwnerSelect
  | OwnerSign
  | Exited
  | Crashed error

datatype event =
    SentEncrypted
  | EncryptFailed error
  | NoSignatures
  | SignatureList "pystr list"
  | InvalidSelection
  | SignatureValid bool
  | NoMessages
  | MessageList "nat list"
  | Decrypted pystr
  | DecryptFailed error
  | SignedSent
  | SignFailed error
  | ShowKeys int int int
  | NewKeys
  | Bye
  | InvalidMenuChoice

record app_state =
  public_key :: pubkey
  private_key :: privkey
  messages :: "int list"
  signatures :: "(pystr \<times> int) list"
  tape :: rand_src
  screen :: screen

section \<open>String helpers of the menus\<close>

text \<open>
  \<^verbatim>\<open>str.strip()\<close> removes the characters for which \<^verbatim>\<open>str.isspace()\<close> holds;
  \<^verbatim>\<open>str.upper()\<close> is modelled on ASCII letters, \<^verbatim>\<open>str.isdigit()\<close> and \<^verbatim>\<open>int()\<close> on
  ASCII digits.
\<close>

definition py_isspace :: "nat \<Rightarrow> bool" where
  "py_isspace c \<longleftrightarrow> (9 \<le> c \<and> c \<le> 13) \<or> (28 \<le> c \<and> c \<le> 32) \<or> c = 133 \<or> c = 160
     \<or> c = 5760 \<or> (8192 \<le> c \<and> c \<le> 8202) \<or> c = 8232 \<or> c = 8233 \<or> c = 8239
     \<or> c = 8287 \<or> c = 12288"

definition py_strip :: "pystr \<Rightarrow> pystr" where
  "py_strip s = rev (dropWhile py_isspace (rev (dropWhile py_isspace s)))"

definition py_upper :: "pystr \<Rightarrow> pystr" where
  "py_upper s = map (\<lambda>c. if 97 \<le> c \<and> c \<le> 122 then c - 32 else c) s"

text \<open>\<^verbatim>\<open>str.isdigit\<close> and \<^verbatim>\<open>int\<close> on ASCII strings, where they agree: both accept
  exactly the non-empty strings of \<open>0\<close>--\<open>9\<close>.  Beyond ASCII they disagree in Python
  (\<^verbatim>\<open>'\<^sup>2'.isdigit()\<close> holds but \<^verbatim>\<open>int('\<^sup>2')\<close> raises \<^verbatim>\<open>ValueError\<close>), which the model
  does not follow; the properties of the menus are stated for ASCII input lines.\<close>

definition py_isdigit :: "pystr \<Rightarrow> bool" where
  "py_isdigit s \<longleftrightarrow> s \<noteq> [] \<and> (\<forall>c \<in> set s. 48 \<le> c \<and> c \<le> 57)"

definition py_int :: "pystr \<Rightarrow> nat" where
  "py_int s = foldl (\<lambda>acc c. 10 * acc + (c - 48)) 0 s"

text \<open>\<^verbatim>\<open>str(n)\<close> of a natural number, as the listings print the positions.\<close>

fun py_str_nat :: "nat \<Rightarrow> pystr" where
  "py_str_nat n = (if n < 10 then [48 + n] else py_str_nat (n div 10) @ [48 + n mod 10])"

declare py_str_nat.simps [simp del]

text \<open>
  \<^verbatim>\<open>if not sel.isdigit() or not (1 <= int(sel) <= len(L)): ...; idx = int(sel) - 1\<close>
\<close>

definition select_index :: "pystr \<Rightarrow> nat \<Rightarrow> nat option" where
  "select_index sel len =
     (if \<not> py_isdigit sel \<or> \<not> (1 \<le> py_int sel \<and> py_int sel \<le> len) then None
      else Some (py_int sel - 1))"

text \<open>The menu choices are compared with the strings \<^verbatim>\<open>"1"\<close> to \<^verbatim>\<open>"5"\<close>.\<close>

abbreviation choice :: "nat \<Rightarrow> pystr" where
  "choice k \<equiv> [48 + k]"

section \<open>The owner's listing of received messages\<close>

text \<open>
  The length shown for each ciphertext (lines 199--212): the length of the decrypted
  text, or if decryption raises, the length of the plaintext's bytes, or \<open>0\<close>.
\<close>

definition listing_length :: "privkey \<Rightarrow> int \<Rightarrow> nat" where
  "listing_length priv c =
     (case decrypt_cipher_to_text c priv of
        Inr decrypted \<Rightarrow> length decrypted
      | Inl _ \<Rightarrow>
        (case priv of (n, d, p, q) \<Rightarrow>
          (case py_pow c d n of
             Inl _ \<Rightarrow> 0
           | Inr m_int \<Rightarrow>
             (let l = (bit_length m_int + 7) div 8 in
              case to_bytes m_int (if l = 0 then 1 else l) of
                Inl _ \<Rightarrow> 0
              | Inr b \<Rightarrow> length b))))"

section \<open>The menus\<close>

definition main_menu_step :: "app_state \<Rightarrow> pystr \<Rightarrow> app_state \<times> event list" where
  "main_menu_step st line =
     (let choice_in = py_strip line in
      if choice_in = choice 1 then (st\<lparr>screen := PublicMenu\<rparr>, [])
      else if choice_in = choice 2 then (st\<lparr>screen := OwnerMenu\<rparr>, [])
      else if choice_in = choice 3 then (st\<lparr>screen := Exited\<rparr>, [Bye])
      else (st, [InvalidMenuChoice]))"

definition public_menu_step :: "app_state \<Rightarrow> pystr \<Rightarrow> app_state \<times> event list" where
  "public_menu_step st line =
     (let choice_in = py_strip line in
      if choice_in = choice 1 then (st\<lparr>screen := PublicMessage\<rparr>, [])
      else if choice_in = choice 2 then
        (if signatures st = [] then (st, [NoSignatures])
         else (st\<lparr>screen := PublicSelect\<rparr>, [SignatureList (map fst (signatures st))]))
      else if choice_in = choice 3 then (st\<lparr>screen := MainMenu\<rparr>, [])
      else (st, [InvalidMenuChoice]))"

definition public_message_step :: "app_state \<Rightarrow> pystr \<Rightarrow> app_state \<times> event list" where
  "public_message_step st msg =
     (case encrypt_text_plainstore msg (public_key st) of
        Inr c \<Rightarrow> (st\<lparr>messages := messages st @ [c], screen := PublicMenu\<rparr>, [SentEncrypted])
      | Inl e \<Rightarrow> (st\<lparr>screen := PublicMenu\<rparr>, [EncryptFailed e]))"

definition public_select_step :: "app_state \<Rightarrow> pystr \<Rightarrow> app_state \<times> event list" where
  "public_select_step st line =
     (case select_index (py_strip line) (length (signatures st)) of
        None \<Rightarrow> (st\<lparr>screen := PublicMenu\<rparr>, [InvalidSelection])
      | Some idx \<Rightarrow>
        (case signatures st ! idx of (mtext, sigint) \<Rightarrow>
          (case verify_text mtext sigint (public_key st) of
             Inr valid \<Rightarrow> (st\<lparr>screen := PublicMenu\<rparr>, [SignatureValid valid])
           | Inl e \<Rightarrow> (st\<lparr>screen := Crashed e\<rparr>, []))))"

definition owner_menu_step :: "app_state \<Rightarrow> pystr \<Rightarrow> (app_state \<times> event list) option" where
  "owner_menu_step st line =
     (let choice_in = py_strip line in
      if choice_in = choice 1 then
        (if messages st = [] then Some (st, [NoMessages])
         else Some (st\<lparr>screen := OwnerSelect\<rparr>,
                    [MessageList (map (listing_length (private_key st)) (messages st))]))
      else if choice_in = choice 2 then Some (st\<lparr>screen := OwnerSign\<rparr>, [])
      else if choice_in = choice 3 then
        (case public_key st of (n, e) \<Rightarrow> case private_key st of (n2, d, p, q) \<Rightarrow>
           Some (st, [ShowKeys n e d]))
      else if choice_in = choice 4 then
        (case generate_keypair 256 (tape st) of
           None \<Rightarrow> None
         | Some (Inl e) \<Rightarrow> Some (st\<lparr>screen := Crashed e\<rparr>, [])
         | Some (Inr ((pub, priv), t)) \<Rightarrow>
             Some (st\<lparr>public_key := pub, private_key := priv, tape := t\<rparr>, [NewKeys]))
      else if choice_in = choice 5 then Some (st\<lparr>screen := MainMenu\<rparr>, [])
      else Some (st, [InvalidMenuChoice]))"

definition owner_select_step :: "app_state \<Rightarrow> pystr \<Rightarrow> app_state \<times> event list" where
  "owner_select_step st line =
     (case select_index (py_strip line) (length (messages st)) of
        None \<Rightarrow> (st\<lparr>screen := OwnerMenu\<rparr>, [InvalidSelection])
      | Some idx \<Rightarrow>
        (case decrypt_cipher_to_text (messages st ! idx) (private_key st) of
           Inr decrypted_text \<Rightarrow> (st\<lparr>screen := OwnerMenu\<rparr>, [Decrypted (py_upper decrypted_text)])
         | Inl e \<Rightarrow> (st\<lparr>screen := OwnerMenu\<rparr>, [DecryptFailed e])))"

definition owner_sign_step :: "app_state \<Rightarrow> pystr \<Rightarrow> app_state \<times> event list" where
  "owner_sign_step st m =
     (case sign_text m (private_key st) of
        Inr sig \<Rightarrow> (st\<lparr>signatures := signatures st @ [(m, sig)], screen := OwnerMenu\<rparr>, [SignedSent])
      | Inl e \<Rightarrow> (st\<lparr>screen := OwnerMenu\<rparr>, [SignFailed e]))"

definition app_step :: "app_state \<Rightarrow> pystr \<Rightarrow> (app_state \<times> event list) option" where
  "app_step st line =
     (case screen st of
        MainMenu \<Rightarrow> Some (main_menu_step st line)
      | PublicMenu \<Rightarrow> Some (public_menu_step st line)
      | PublicMessage \<Rightarrow> Some (public_message_step st line)
      | PublicSelect \<Rightarrow> Some (public_select_step st line)
      | OwnerMenu \<Rightarrow> owner_menu_step st line
      | OwnerSelect \<Rightarrow> Some (owner_select_step st line)
      | OwnerSign \<Rightarrow> Some (owner_sign_step st line)
      | Exited \<Rightarrow> Some (st, [])
      | Crashed e \<Rightarrow> Some (st, []))"

text \<open>A run over the lines typed, with everything printed, in order.\<close>

fun app_run :: "app_state \<Rightarrow> pystr list \<Rightarrow> (app_state \<times> event list) option" where
  "app_run st [] = Some (st, [])"
| "app_run st (l # ls) =
     (case app_step st l of
        None \<Rightarrow> None
      | Some (st', evs) \<Rightarrow>
        (case app_run st' ls of
           None \<Rightarrow> None
         | Some (st'', evs') \<Rightarrow> Some (st'', evs @ evs')))"

text \<open>Module start (lines 116--121): a fresh key pair and empty stores.\<close>

definition app_init :: "rand_src \<Rightarrow> (app_state \<times> event list) option" where
  "app_init t =
     (case generate_keypair 256 t of
        None \<Rightarrow> None
      | Some (Inl e) \<Rightarrow> Some (\<lparr>public_key = (0, 0), private_key = (0, 0, 0, 0), messages = [],
                              signatures = [], tape = t, screen = Crashed e\<rparr>, [])
      | Some (Inr ((pub, priv), t')) \<Rightarrow>
          Some (\<lparr>public_key = pub, private_key = priv, messages = [], signatures = [],
                 tape = t', screen = MainMenu\<rparr>, [NewKeys]))"


section \<open>The invariant of the interactive layer\<close>

text \<open>
  What keeps the menus from crashing: the public key has a modulus above \<open>1\<close> and a
  non-negative exponent (so \<^verbatim>\<open>pow\<close> never raises in \<^verbatim>\<open>verify_text\<close>), every
  stored signature's message can be encoded (it was signed, so \<^verbatim>\<open>text_to_int\<close>
  succeeded on it), and no exception has escaped.
\<close>

definition app_inv :: "app_state \<Rightarrow> bool" where
  "app_inv st \<longleftrightarrow> (case public_key st of (n, e) \<Rightarrow> 1 < n \<and> 0 \<le> e)
     \<and> (\<forall>(m, s) \<in> set (signatures st). \<exists>v. text_to_int m = Inr v)
     \<and> (\<forall>e. screen st \<noteq> Crashed e)"

text \<open>A state with the textbook key \<open>n = 11 * 13\<close> used by the concrete runs.\<close>

definition demo_state :: app_state where
  "demo_state = \<lparr>public_key = (143, 7), private_key = (143, 103, 11, 13), messages = [],
     signatures = [], tape = sconst 0, screen = MainMenu\<rparr>"

lemma verify_text_encodable:
  assumes "1 < n" and "0 \<le> e" and "text_to_int msg = Inr m"
  shows "\<exists>b. verify_text msg s (n, e) = Inr b"
  using assms by (auto simp: verify_text_def)

lemma sign_text_encodable:
  assumes "sign_text msg priv = Inr s"
  shows "\<exists>v. text_to_int msg = Inr v"
  using assms by (cases priv; cases "text_to_int msg") (auto simp: sign_text_def)

lemma generate_keypair_256:
  assumes "generate_keypair 256 t = Some r"
  shows "\<exists>n e d p q t'. r = Inr (((n, e), (n, d, p, q)), t') \<and> 1 < n \<and> 0 \<le> e"
proof -
  obtain n e d p q t' where r: "r = Inr (((n, e), (n, d, p, q)), t')"
    and inv: "keypair_inv 256 (n, e) (n, d, p, q)"
    using generate_keypair_Some [OF assms] by auto
  have "3 \<le> p" "3 \<le> q" using inv keygen_prime_ge3 [of 256] by (simp_all add: keypair_inv_def)
  then have "1 < p * q" by (simp add: less_1_mult)
  then show ?thesis using r inv by (auto simp: keypair_inv_def)
qed

section \<open>Each menu step keeps the invariant\<close>

lemma app_inv_screen [simp]:
  "app_inv st \<Longrightarrow> (\<forall>e. x \<noteq> Crashed e) \<Longrightarrow> app_inv (st\<lparr>screen := x\<rparr>)"
  by (simp add: app_inv_def)

lemma main_menu_inv: "main_menu_step st l = (st', evs) \<Longrightarrow> app_inv st \<Longrightarrow> app_inv st'"
  by (auto simp: main_menu_step_def app_inv_def Let_def split: if_splits)

lemma public_menu_inv: "public_menu_step st l = (st', evs) \<Longrightarrow> app_inv st \<Longrightarrow> app_inv st'"
  by (auto simp: public_menu_step_def app_inv_def Let_def split: if_splits)

lemma public_message_inv:
  "public_message_step st l = (st', evs) \<Longrightarrow> app_inv st \<Longrightarrow> app_inv st'"
  by (auto simp: public_message_step_def app_inv_def split: sum.splits)

lemma public_select_inv:
  assumes "app_inv st"
  shows "app_inv (fst (public_select_step st l))"
proof (cases "select_index (py_strip l) (length (signatures st))")
  case None
  then show ?thesis using assms by (simp add: public_select_step_def app_inv_def)
next
  case (Some idx)
  then have idx: "idx < length (signatures st)"
    by (auto simp: select_index_def split: if_splits)
  obtain mtext sigint where sig: "signatures st ! idx = (mtext, sigint)" by (cases "signatures st ! idx")
  obtain n e where pub: "public_key st = (n, e)" by (cases "public_key st")
  have "(mtext, sigint) \<in> set (signatures st)" using idx sig by (metis nth_mem)
  then obtain v where "text_to_int mtext = Inr v" using assms by (auto simp: app_inv_def)
  moreover have "1 < n" "0 \<le> e" using assms pub by (simp_all add: app_inv_def)
  ultimately obtain b where "verify_text mtext sigint (n, e) = Inr b"
    using verify_text_encodable by blast
  then show ?thesis using assms Some sig pub by (simp add: public_select_step_def app_inv_def)
qed

lemma public_select_inv':
  "public_select_step st l = (st', evs) \<Longrightarrow> app_inv st \<Longrightarrow> app_inv st'"
  using public_select_inv [of st l] by simp

lemma owner_menu_inv:
  assumes "app_inv st" and "owner_menu_step st l = Some (st', evs)"
  shows "app_inv st'"
proof (cases "py_strip l = choice 4")
  case True
  obtain r where g: "generate_keypair 256 (tape st) = Some r"
    using assms(2) True by (cases "generate_keypair 256 (tape st)") (simp_all add: owner_menu_step_def)
  obtain n e d p q t' where r: "r = Inr (((n, e), (n, d, p, q)), t')" "1 < n" "0 \<le> e"
    using generate_keypair_256 [OF g] by blast
  have "st' = st\<lparr>public_key := (n, e), private_key := (n, d, p, q), tape := t'\<rparr>"
    using assms(2) True g r(1) by (simp add: owner_menu_step_def)
  then show ?thesis using assms(1) r(2,3) by (simp add: app_inv_def)
next
  case False
  then show ?thesis using assms
    by (auto simp: owner_menu_step_def Let_def split: if_splits prod.splits)
qed

lemma owner_select_inv:
  "owner_select_step st l = (st', evs) \<Longrightarrow> app_inv st \<Longrightarrow> app_inv st'"
  by (auto simp: owner_select_step_def app_inv_def split: option.splits sum.splits)

lemma owner_sign_inv:
  assumes "app_inv st"
  shows "app_inv (fst (owner_sign_step st l))"
proof (cases "sign_text l (private_key st)")
  case (Inl e)
  then show ?thesis using assms by (simp add: owner_sign_step_def app_inv_def)
next
  case (Inr sig)
  then show ?thesis using assms sign_text_encodable [OF Inr] by (simp add: owner_sign_step_def app_inv_def)
qed

lemma owner_sign_inv':
  "owner_sign_step st l = (st', evs) \<Longrightarrow> app_inv st \<Longrightarrow> app_inv st'"
  using owner_sign_inv [of st l] by simp

lemma app_step_keeps_inv:
  assumes "app_inv st" and "app_step st l = Some (st', evs)"
  shows "app_inv st'"
proof (cases "screen st")
  case OwnerMenu
  then show ?thesis using assms owner_menu_inv by (simp add: app_step_def)
next
  case (Crashed e)
  then show ?thesis using assms by (simp add: app_inv_def)
qed (use assms in \<open>auto simp: app_step_def dest: main_menu_inv public_menu_inv public_message_inv
       public_select_inv' owner_select_inv owner_sign_inv'\<close>)

lemma app_run_keeps_inv:
  assumes "app_inv st" and "app_run st ls = Some (st', evs)"
  shows "app_inv st'"
  using assms
proof (induction ls arbitrary: st evs)
  case Nil
  then show ?case by simp
next
  case (Cons l ls)
  obtain st1 evs1 where s1: "app_step st l = Some (st1, evs1)"
    using Cons.prems(2) by (cases "app_step st l") auto
  obtain st2 evs2 where s2: "app_run st1 ls = Some (st2, evs2)"
    using Cons.prems(2) s1 by (cases "app_run st1 ls") auto
  have "st' = st2" using Cons.prems(2) s1 s2 by simp
  then show ?case using Cons.IH [OF app_step_keeps_inv [OF Cons.prems(1) s1]] s2 by simp
qed

lemma demo_codec:
  "text_to_int [104] = Inr 104" "text_to_int [65] = Inr 65" "int_to_text 104 = Inr [104]"
proof -
  show "text_to_int [104] = Inr 104" "text_to_int [65] = Inr 65"
    by (simp_all add: text_to_int_def utf8_encode_char_def from_bytes_def byte_of_def)
  have "bit_length 104 = 7" by (simp add: bit_length_def bit_length_nat.simps)
  then show "int_to_text 104 = Inr [104]"
    by (simp add: int_to_text_def to_bytes_def utf8_decode.simps decode_char_def cons_char_def)
qed

section \<open>Printed positions read back\<close>

lemma py_int_snoc: "py_int (xs @ [c]) = 10 * py_int xs + (c - 48)"
  by (simp add: py_int_def)

lemma py_str_nat_digits: "py_str_nat n \<noteq> [] \<and> (\<forall>c \<in> set (py_str_nat n). 48 \<le> c \<and> c \<le> 57)"
proof (induction n rule: py_str_nat.induct)
  case (1 n)
  show ?case
  proof (cases "n < 10")
    case True
    then show ?thesis by (simp add: py_str_nat.simps)
  next
    case False
    have "n mod 10 < 10" by simp
    then show ?thesis using "1.IH" [OF False] False by (simp add: py_str_nat.simps [of n])
  qed
qed

lemma py_int_py_str_nat: "py_int (py_str_nat n) = n"
proof (induction n rule: py_str_nat.induct)
  case (1 n)
  show ?case
  proof (cases "n < 10")
    case True
    then show ?thesis by (simp add: py_str_nat.simps py_int_def)
  next
    case False
    then have "py_int (py_str_nat n) = 10 * (n div 10) + n mod 10"
      using "1.IH" by (simp add: py_str_nat.simps [of n] py_int_snoc)
    then show ?thesis by simp
  qed
qed

lemma py_isdigit_py_str_nat: "py_isdigit (py_str_nat n)"
  using py_str_nat_digits [of n] by (simp add: py_isdigit_def)

lemma dropWhile_none: "\<forall>x \<in> set xs. \<not> P x \<Longrightarrow> dropWhile P xs = xs"
  by (induction xs) simp_all

lemma py_strip_py_str_nat: "py_strip (py_str_nat n) = py_str_nat n"
proof -
  have "\<forall>c \<in> set (py_str_nat n). \<not> py_isspace c"
    using py_str_nat_digits [of n] by (auto simp: py_isspace_def)
  then show ?thesis by (simp add: py_strip_def dropWhile_none)
qed

section \<open>Component properties\<close>

text \<open>
  C14: safety of the interactive layer on ASCII input.  From a state with the invariant,
  every run of the menus on lines of ASCII characters keeps it; in particular no
  exception escapes (\<^verbatim>\<open>verify_text\<close> on a stored signature never raises, key
  regeneration never raises, and every selection \<^verbatim>\<open>isdigit\<close> accepts is one \<^verbatim>\<open>int\<close>
  converts).
\<close>

theorem app_run_safe:
  assumes "app_inv st" and "list_all (list_all (\<lambda>c. c < 128)) lines"
    and "app_run st lines = Some (st', printed)"
  shows "app_inv st' \<and> (\<forall>e. screen st' \<noteq> Crashed e)"
  using app_run_keeps_inv [OF assms(1,3)] by (simp add: app_inv_def)

theorem app_run_safe_witness:
  "app_inv demo_state \<and> list_all (list_all (\<lambda>c. c < 128)) [ascii ''3''] \<and> app_run demo_state [ascii ''3''] = Some (demo_state\<lparr>screen := Exited\<rparr>, [Bye])
   \<and> app_inv (demo_state\<lparr>screen := Exited\<rparr>)"
proof -
  have i: "app_inv demo_state" by (simp add: app_inv_def demo_state_def)
  have r: "app_run demo_state [ascii ''3''] = Some (demo_state\<lparr>screen := Exited\<rparr>, [Bye])"
    by (simp add: demo_state_def app_step_def main_menu_step_def py_strip_def py_isspace_def ascii_def)
  have a: "list_all (list_all (\<lambda>c. c < 128)) [ascii ''3'']" by (simp add: ascii_def)
  show ?thesis using i a r app_run_safe [OF i a r] by simp
qed

text \<open>
  C23: the owner's signatures check out in the public menu: when the current key pair
  is valid and the selected entry was signed with the current private key, the menu
  prints that the signature is valid.
\<close>

theorem public_select_fresh:
  assumes "rsa_key_ok (public_key st) (private_key st)" and "screen st = PublicSelect"
    and "select_index (py_strip l) (length (signatures st)) = Some i"
    and "signatures st ! i = (m, s)" and "sign_text m (private_key st) = Inr s"
  shows "app_step st l = Some (st\<lparr>screen := PublicMenu\<rparr>, [SignatureValid True])"
proof -
  obtain n e where pub: "public_key st = (n, e)" by (cases "public_key st")
  obtain n' d p q where priv: "private_key st = (n', d, p, q)" by (cases "private_key st") auto
  note ok = assms(1) [unfolded pub priv]
  obtain v where v: "text_to_int m = Inr v" "v < n" "s = v ^ nat d mod n"
    using sign_text_Inr [OF ok assms(5) [unfolded priv]] by blast
  have "verify_text m s (n, e) = Inr True" using verify_sign [OF ok v(1,2)] v(3) by simp
  then show ?thesis using assms(2-4) pub by (simp add: app_step_def public_select_step_def)
qed

theorem public_select_fresh_witness:
  "rsa_key_ok (public_key (demo_state\<lparr>signatures := [(ascii ''A'', 65)], screen := PublicSelect\<rparr>))
      (private_key (demo_state\<lparr>signatures := [(ascii ''A'', 65)], screen := PublicSelect\<rparr>))
   \<and> app_step (demo_state\<lparr>signatures := [(ascii ''A'', 65)], screen := PublicSelect\<rparr>) (ascii ''1'')
     = Some (demo_state\<lparr>signatures := [(ascii ''A'', 65)], screen := PublicMenu\<rparr>, [SignatureValid True])"
proof -
  let ?st = "demo_state\<lparr>signatures := [(ascii ''A'', 65)], screen := PublicSelect\<rparr>"
  have k: "rsa_key_ok (public_key ?st) (private_key ?st)" by (simp add: demo_state_def) code_simp
  have sel: "select_index (py_strip (ascii ''1'')) (length (signatures ?st)) = Some 0"
    by (simp add: select_index_def py_strip_def py_isspace_def py_isdigit_def py_int_def ascii_def)
  have sg: "sign_text (ascii ''A'') (private_key ?st) = Inr 65"
    by (simp add: demo_state_def sign_text_def text_to_int_def ascii_def utf8_encode_char_def
        from_bytes_def byte_of_def)
  have "app_step ?st (ascii ''1'') = Some (?st\<lparr>screen := PublicMenu\<rparr>, [SignatureValid True])"
    using public_select_fresh [OF k _ sel _ sg] by simp
  then show ?thesis using k by simp
qed

text \<open>
  C24: the selection prompts index their lists in range and select what the listing
  shows: \<open>select_index\<close> answers only with an index below the list's length, and the
  number \<^verbatim>\<open>f"{idx}"\<close> printed before the \<open>idx\<close>-th entry (counting from 1) selects
  exactly that entry.  So \<^verbatim>\<open>SIGNATURES[idx]\<close> and \<^verbatim>\<open>MESSAGES[idx]\<close> never raise
  \<^verbatim>\<open>IndexError\<close>.
\<close>

theorem select_index_bounds:
  "(select_index sel len = Some i \<longrightarrow> i < len)
   \<and> (0 < k \<and> k \<le> len \<longrightarrow> select_index (py_strip (py_str_nat k)) len = Some (k - 1))"
proof (intro conjI impI)
  assume "select_index sel len = Some i"
  then show "i < len" by (auto simp: select_index_def split: if_splits)
next
  assume k: "0 < k \<and> k \<le> len"
  then show "select_index (py_strip (py_str_nat k)) len = Some (k - 1)"
    by (simp add: select_index_def py_strip_py_str_nat py_isdigit_py_str_nat py_int_py_str_nat)
qed

theorem select_index_bounds_witness:
  "select_index (ascii ''2'') 12 = Some 1 \<and> (1::nat) < 12
   \<and> select_index (py_strip (py_str_nat 12)) 12 = Some 11"
proof -
  have s: "select_index (ascii ''2'') 12 = Some 1"
    by (simp add: select_index_def py_isdigit_def py_int_def ascii_def)
  show ?thesis using s select_index_bounds [of "ascii ''2''" 12 1 12] by simp
qed

end
