(* ===== verification/GraphDemo.thy ===== *)
theory GraphDemo
  imports Complex_Main Prelude "HOL-Library.AList" "HOL-Library.List_Lexorder" "HOL-Library.Product_Lexorder"
begin

text \<open>
  The graph demo src/Project3/Project3/project3.py: a weighted undirected graph of nine
  nodes built with networkx, the distances and paths of Dijkstra's algorithm from
  \<open>'A'\<close>, and a minimum spanning tree by Prim's algorithm with its total weight.  The
  script's own lines are modelled as they are; the networkx routines it calls are
  modelled from their source (\<^verbatim>\<open>Graph.add_edge\<close>, \<^verbatim>\<open>_dijkstra_multisource\<close>,
  \<^verbatim>\<open>prim_mst_edges\<close>, \<^verbatim>\<open>EdgeView\<close> iteration), with Python dicts as association lists
  kept in insertion order and \<^verbatim>\<open>heapq\<close> heaps as lists from which the least element
  is popped.  \<^verbatim>\<open>set(G).pop()\<close>, whose result depends on string hashing, is an explicit
  parameter: the order in which the node set hands out its elements.  The drawing
  (lines 34--76) is the list of plotting calls the script makes, each with the check that
  makes the library raise; the rendering itself is not modelled.
\<close>

type_synonym node = pystr
type_synonym wgraph = "(node \<times> (node \<times> int) list) list"

datatype nx_error = NodeNotFound | ContradictoryPaths

section \<open>Building the graph\<close>

definition add_node :: "node \<Rightarrow> wgraph \<Rightarrow> wgraph" where
  "add_node u G = (if map_of G u = None then G @ [(u, [])] else G)"

text \<open>\<^verbatim>\<open>self._adj[u][v] = datadict\<close>: the neighbour dict of \<open>u\<close> maps \<open>v\<close> to the weight.\<close>

definition set_adj :: "node \<Rightarrow> node \<Rightarrow> int \<Rightarrow> wgraph \<Rightarrow> wgraph" where
  "set_adj u v w G = AList.update u (AList.update v w (the (map_of G u))) G"

text \<open>\<^verbatim>\<open>G.add_edge(u, v, weight=w)\<close>: both endpoints are added if new, then the
  weight is stored in the neighbour dict of \<open>u\<close> and of \<open>v\<close>.\<close>

definition add_weighted_edge :: "wgraph \<Rightarrow> node \<times> node \<times> int \<Rightarrow> wgraph" where
  "add_weighted_edge G e = (case e of (u, v, w) \<Rightarrow> set_adj v u w (set_adj u v w (add_node v (add_node u G))))"

definition add_weighted_edges_from :: "wgraph \<Rightarrow> (node \<times> node \<times> int) list \<Rightarrow> wgraph" where
  "add_weighted_edges_from G es = foldl add_weighted_edge G es"

definition graph_nodes :: "wgraph \<Rightarrow> node list" where
  "graph_nodes G = map fst G"

definition edge_weight :: "wgraph \<Rightarrow> node \<Rightarrow> node \<Rightarrow> int option" where
  "edge_weight G u v = (case map_of G u of None \<Rightarrow> None | Some nbrs \<Rightarrow> map_of nbrs v)"

text \<open>Iteration over \<^verbatim>\<open>G.edges(data=True)\<close>: each node in order, each neighbour not
  yet passed as a node.\<close>

fun edge_iter :: "wgraph \<Rightarrow> node list \<Rightarrow> (node \<times> node \<times> int) list" where
  "edge_iter [] seen = []"
| "edge_iter ((n, nbrs) # rest) seen =
     map (\<lambda>(nbr, w). (n, nbr, w)) (filter (\<lambda>(nbr, w). nbr \<notin> set seen) nbrs)
     @ edge_iter rest (n # seen)"

section \<open>Heaps\<close>

definition heap_pop :: "'a::linorder list \<Rightarrow> 'a \<times> 'a list" where
  "heap_pop h = (min_list h, remove1 (min_list h) h)"

section \<open>Dijkstra's algorithm\<close>

text \<open>The state of \<^verbatim>\<open>_dijkstra_multisource\<close>: the heap \<^verbatim>\<open>fringe\<close> of
  \<^verbatim>\<open>(distance, count, node)\<close>, the counter \<^verbatim>\<open>c\<close>, the final distances \<^verbatim>\<open>dist\<close>,
  the tentative ones \<^verbatim>\<open>seen\<close>, and \<^verbatim>\<open>paths\<close>.\<close>

record dstate =
  d_fringe :: "(int \<times> nat \<times> node) list"
  d_count :: nat
  d_dist :: "(node \<times> int) list"
  d_seen :: "(node \<times> int) list"
  d_paths :: "(node \<times> node list) list"

text \<open>The loop over the neighbours \<open>u\<close> of the node \<open>v\<close> just settled.\<close>

fun relax :: "node \<Rightarrow> (node \<times> int) list \<Rightarrow> dstate \<Rightarrow> nx_error + dstate" where
  "relax v [] st = Inr st"
| "relax v ((u, cost) # nbrs) st =
     (if map_of (d_dist st) u \<noteq> None then
        (if the (map_of (d_dist st) v) + cost < the (map_of (d_dist st) u)
         then Inl ContradictoryPaths else relax v nbrs st)
      else if map_of (d_seen st) u = None
              \<or> the (map_of (d_dist st) v) + cost < the (map_of (d_seen st) u) then
        relax v nbrs (st\<lparr>d_fringe := d_fringe st @ [(the (map_of (d_dist st) v) + cost, d_count st, u)],
                         d_count := Suc (d_count st),
                         d_seen := AList.update u (the (map_of (d_dist st) v) + cost) (d_seen st),
                         d_paths := AList.update u (the (map_of (d_paths st) v) @ [u]) (d_paths st)\<rparr>)
      else relax v nbrs st)"

text \<open>One pop of the heap: skip a node already settled, otherwise settle it and relax
  its edges.\<close>

definition dijkstra_step :: "wgraph \<Rightarrow> dstate \<Rightarrow> nx_error + dstate" where
  "dijkstra_step G st =
     (case heap_pop (d_fringe st) of ((d, _, v), rest) \<Rightarrow>
        if map_of (d_dist st) v \<noteq> None then Inr (st\<lparr>d_fringe := rest\<rparr>)
        else relax v (the (map_of G v)) (st\<lparr>d_fringe := rest, d_dist := d_dist st @ [(v, d)]\<rparr>))"

partial_function (option) dijkstra_loop :: "wgraph \<Rightarrow> dstate \<Rightarrow> (nx_error + dstate) option" where
  "dijkstra_loop G st =
     (if d_fringe st = [] then Some (Inr st)
      else if isl (dijkstra_step G st) then Some (Inl (projl (dijkstra_step G st)))
      else dijkstra_loop G (projr (dijkstra_step G st)))"

text \<open>\<^verbatim>\<open>multi_source_dijkstra(G, {source})\<close>: a source outside the graph raises
  \<^verbatim>\<open>NodeNotFound\<close>; otherwise the loop runs from the source at distance 0.\<close>

definition single_source_dijkstra ::
  "wgraph \<Rightarrow> node \<Rightarrow> (nx_error + (node \<times> int) list \<times> (node \<times> node list) list) option" where
  "single_source_dijkstra G source =
     (if map_of G source = None then Some (Inl NodeNotFound)
      else map_option (map_sum id (\<lambda>st. (d_dist st, d_paths st)))
        (dijkstra_loop G \<lparr>d_fringe = [(0, 0, source)], d_count = 1, d_dist = [],
                          d_seen = [(source, 0)], d_paths = [(source, [source])]\<rparr>))"

definition single_source_dijkstra_path_length ::
  "wgraph \<Rightarrow> node \<Rightarrow> (nx_error + (node \<times> int) list) option" where
  "single_source_dijkstra_path_length G source = map_option (map_sum id fst) (single_source_dijkstra G source)"

definition single_source_dijkstra_path ::
  "wgraph \<Rightarrow> node \<Rightarrow> (nx_error + (node \<times> node list) list) option" where
  "single_source_dijkstra_path G source = map_option (map_sum id snd) (single_source_dijkstra G source)"

section \<open>Prim's algorithm\<close>

text \<open>The state of \<^verbatim>\<open>prim_mst_edges\<close>: the node set still to span, the nodes
  visited by the current tree, the heap \<^verbatim>\<open>frontier\<close> of
  \<^verbatim>\<open>(weight, count, u, v)\<close>, the counter, and the edges yielded so far.\<close>

record pstate =
  p_nodes :: "node list"
  p_visited :: "node list"
  p_frontier :: "(int \<times> nat \<times> node \<times> node) list"
  p_count :: nat
  p_edges :: "(node \<times> node \<times> int) list"

text \<open>Pushing the edges of \<open>v\<close>; the first node pushes all of them, later nodes skip
  the visited neighbours.\<close>

fun push_edges :: "bool \<Rightarrow> node \<Rightarrow> (node \<times> int) list \<Rightarrow> pstate \<Rightarrow> pstate" where
  "push_edges check v [] st = st"
| "push_edges check v ((w, wt) # nbrs) st =
     (if check \<and> w \<in> set (p_visited st) then push_edges check v nbrs st
      else push_edges check v nbrs
             (st\<lparr>p_frontier := p_frontier st @ [(wt, p_count st, v, w)], p_count := Suc (p_count st)\<rparr>))"

definition prim_step :: "wgraph \<Rightarrow> pstate \<Rightarrow> pstate" where
  "prim_step G st =
     (case heap_pop (p_frontier st) of ((W, _, u, v), rest) \<Rightarrow>
        if v \<in> set (p_visited st) \<or> v \<notin> set (p_nodes st) then st\<lparr>p_frontier := rest\<rparr>
        else push_edges True v (the (map_of G v))
               (st\<lparr>p_frontier := rest, p_edges := p_edges st @ [(u, v, W)],
                   p_visited := p_visited st @ [v], p_nodes := removeAll v (p_nodes st)\<rparr>))"

partial_function (option) prim_inner :: "wgraph \<Rightarrow> pstate \<Rightarrow> pstate option" where
  "prim_inner G st =
     (if p_nodes st = [] \<or> p_frontier st = [] then Some st else prim_inner G (prim_step G st))"

text \<open>\<^verbatim>\<open>u = nodes.pop()\<close> takes the first node of \<open>order\<close> still in the set.\<close>

definition prim_start :: "wgraph \<Rightarrow> node list \<Rightarrow> pstate \<Rightarrow> pstate" where
  "prim_start G order st =
     (let u = hd (filter (\<lambda>x. x \<in> set (p_nodes st)) order) in
      push_edges False u (the (map_of G u))
        (st\<lparr>p_nodes := removeAll u (p_nodes st), p_visited := [u], p_frontier := []\<rparr>))"

partial_function (option) prim_outer :: "wgraph \<Rightarrow> node list \<Rightarrow> pstate \<Rightarrow> pstate option" where
  "prim_outer G order st =
     (if p_nodes st = [] then Some st
      else if prim_inner G (prim_start G order st) = None then None
      else prim_outer G order (the (prim_inner G (prim_start G order st))))"

text \<open>\<^verbatim>\<open>nodes = set(G)\<close>, \<^verbatim>\<open>c = count()\<close>.\<close>

definition prim_init :: "wgraph \<Rightarrow> pstate" where
  "prim_init G = \<lparr>p_nodes = graph_nodes G, p_visited = [], p_frontier = [], p_count = 0, p_edges = []\<rparr>"

definition prim_mst_edges :: "wgraph \<Rightarrow> node list \<Rightarrow> (node \<times> node \<times> int) list option" where
  "prim_mst_edges G order = map_option p_edges (prim_outer G order (prim_init G))"

text \<open>\<^verbatim>\<open>minimum_spanning_tree(G, algorithm='prim')\<close>: a graph with the nodes of
  \<open>G\<close> in their order and the yielded edges.\<close>

definition minimum_spanning_tree :: "wgraph \<Rightarrow> node list \<Rightarrow> wgraph option" where
  "minimum_spanning_tree G order =
     map_option (add_weighted_edges_from (map (\<lambda>n. (n, [])) (graph_nodes G))) (prim_mst_edges G order)"

section \<open>The script\<close>

definition edges :: "(node \<times> node \<times> int) list" where
  "edges = [
     (ascii ''A'', ascii ''B'', 22), (ascii ''A'', ascii ''C'', 9), (ascii ''A'', ascii ''D'', 12),
     (ascii ''B'', ascii ''C'', 35), (ascii ''B'', ascii ''E'', 34), (ascii ''B'', ascii ''F'', 36),
     (ascii ''C'', ascii ''D'', 4), (ascii ''C'', ascii ''E'', 65), (ascii ''C'', ascii ''F'', 42),
     (ascii ''D'', ascii ''E'', 33), (ascii ''D'', ascii ''I'', 30),
     (ascii ''E'', ascii ''F'', 18), (ascii ''E'', ascii ''G'', 23), (ascii ''F'', ascii ''G'', 39),
     (ascii ''F'', ascii ''H'', 24),
     (ascii ''G'', ascii ''H'', 25), (ascii ''G'', ascii ''I'', 21), (ascii ''H'', ascii ''I'', 19)]"

text \<open>Lines 4 and 15, \<^verbatim>\<open>G = nx.Graph()\<close> and \<^verbatim>\<open>G.add_weighted_edges_from(edges)\<close>,
  for any edge list.\<close>

definition build_graph :: "(node \<times> node \<times> int) list \<Rightarrow> wgraph" where
  "build_graph es = add_weighted_edges_from [] es"

definition demo_graph :: wgraph where
  "demo_graph = build_graph edges"

definition start_node :: node where
  "start_node = ascii ''A''"

text \<open>Lines 18--23: the distances, the paths, and the printed table
  \<open>(node, distance, path)\<close> in the order of \<^verbatim>\<open>distances.items()\<close>.\<close>

definition demo_distances :: "(nx_error + (node \<times> int) list) option" where
  "demo_distances = single_source_dijkstra_path_length demo_graph start_node"

definition demo_paths :: "(nx_error + (node \<times> node list) list) option" where
  "demo_paths = single_source_dijkstra_path demo_graph start_node"

definition spt_report :: "(node \<times> int) list \<Rightarrow> (node \<times> node list) list \<Rightarrow> (node \<times> int \<times> node list) list" where
  "spt_report distances paths = map (\<lambda>(node, dist). (node, dist, the (map_of paths node))) distances"

text \<open>Lines 26--32: the tree \<^verbatim>\<open>MST\<close>, its printed edges and their total weight.\<close>

definition demo_mst :: "node list \<Rightarrow> wgraph option" where
  "demo_mst order = minimum_spanning_tree demo_graph order"

definition mst_total_weight :: "wgraph \<Rightarrow> int" where
  "mst_total_weight T = sum_list (map (\<lambda>(u, v, w). w) (edge_iter T []))"

definition mst_lines :: "wgraph \<Rightarrow> (node \<times> node \<times> int) list" where
  "mst_lines T = edge_iter T []"

text \<open>Lines 59--62: the last edge of every path of more than one node.\<close>

definition spt_edges :: "(node \<times> node list) list \<Rightarrow> (node \<times> node) list" where
  "spt_edges paths =
     map (\<lambda>(node, path). (path ! (length path - 2), last path)) (filter (\<lambda>(node, path). 1 < length path) paths)"

section \<open>The drawing\<close>

text \<open>The figure as the sequence of plotting calls the script makes.  Positions are
  rationals (the decimal literals of the source); font options and node sizes, which
  change nothing but the pixels, are left out.\<close>

type_synonym layout = "(node \<times> (rat \<times> rat)) list"

datatype plot_cmd =
    Figure nat nat
  | Subplot nat nat nat
  | DrawGraph wgraph layout pystr
  | DrawEdges wgraph layout "(node \<times> node) list" nat pystr
  | DrawEdgeLabels wgraph layout "((node \<times> node) \<times> int) list"
  | Title pystr
  | TightLayout
  | Show

text \<open>\<^verbatim>\<open>nx.get_edge_attributes(G, 'weight')\<close> and \<^verbatim>\<open>G.edges()\<close>.\<close>

definition edge_labels :: "wgraph \<Rightarrow> ((node \<times> node) \<times> int) list" where
  "edge_labels G = map (\<lambda>(u, v, w). ((u, v), w)) (edge_iter G [])"

definition edge_pairs :: "wgraph \<Rightarrow> (node \<times> node) list" where
  "edge_pairs G = map (\<lambda>(u, v, w). (u, v)) (edge_iter G [])"

text \<open>What each call needs in order not to raise: \<^verbatim>\<open>plt.subplot\<close> an index in range
  (\<^verbatim>\<open>ValueError\<close>), the networkx drawing routines a position for every node they draw
  (\<^verbatim>\<open>NetworkXError\<close> or \<^verbatim>\<open>KeyError\<close>).\<close>

fun plot_ok :: "plot_cmd \<Rightarrow> bool" where
  "plot_ok (Subplot r c i) = (1 \<le> i \<and> i \<le> r * c)"
| "plot_ok (DrawGraph G pos color) = list_all (\<lambda>n. map_of pos n \<noteq> None) (graph_nodes G)"
| "plot_ok (DrawEdges G pos es width color) =
     list_all (\<lambda>(u, v). map_of pos u \<noteq> None \<and> map_of pos v \<noteq> None) es"
| "plot_ok (DrawEdgeLabels G pos labels) =
     list_all (\<lambda>((u, v), w). map_of pos u \<noteq> None \<and> map_of pos v \<noteq> None) labels"
| "plot_ok _ = True"

text \<open>Lines 34--45.\<close>

definition pos :: layout where
  "pos = [(ascii ''A'', (0, 3)), (ascii ''B'', (1, 5)), (ascii ''C'', (3 / 2, 3)),
          (ascii ''D'', (9 / 5, 6 / 5)), (ascii ''E'', (33 / 10, 4)), (ascii ''F'', (17 / 5, 2)),
          (ascii ''G'', (5, 3)), (ascii ''H'', (31 / 5, 2)), (ascii ''I'', (31 / 5, 43 / 10))]"

text \<open>Line 47.\<close>

definition labels :: "((node \<times> node) \<times> int) list" where
  "labels = edge_labels demo_graph"

text \<open>Lines 49--76: three panels, the graph, the shortest path tree of \<open>paths\<close> and
  the spanning tree \<open>MST\<close>.\<close>

definition demo_drawing :: "(node \<times> node list) list \<Rightarrow> wgraph \<Rightarrow> plot_cmd list" where
  "demo_drawing paths MST = [
     Figure 16 6,
     Subplot 1 3 1,
     DrawGraph demo_graph pos (ascii ''lightblue''),
     DrawEdgeLabels demo_graph pos labels,
     Title (ascii ''Original Weighted Graph''),
     Subplot 1 3 2,
     DrawGraph demo_graph pos (ascii ''lightgreen''),
     DrawEdges demo_graph pos (spt_edges paths) 3 (ascii ''green''),
     DrawEdgeLabels demo_graph pos labels,
     Title (ascii ''Shortest Path Tree (Dijkstra from A)''),
     Subplot 1 3 3,
     DrawGraph demo_graph pos (ascii ''lightcoral''),
     DrawEdges demo_graph pos (edge_pairs MST) 3 (ascii ''red''),
     DrawEdgeLabels demo_graph pos labels,
     Title (ascii ''Minimum Spanning Tree (Prim'' @ [8217] @ ascii ''s)''),
     TightLayout,
     Show]"

section \<open>Walks, forests and potentials\<close>

text \<open>The weight of a walk along the neighbour dicts, \<open>None\<close> if it is not a walk.\<close>

fun walk_weight :: "wgraph \<Rightarrow> node list \<Rightarrow> int option" where
  "walk_weight G [] = None"
| "walk_weight G [v] = (if map_of G v = None then None else Some 0)"
| "walk_weight G (u # v # p) =
     (case edge_weight G u v of None \<Rightarrow> None | Some w \<Rightarrow> map_option ((+) w) (walk_weight G (v # p)))"

definition has_edge :: "wgraph \<Rightarrow> node \<Rightarrow> node \<Rightarrow> int \<Rightarrow> bool" where
  "has_edge G u v w = (case map_of G u of None \<Rightarrow> False | Some nbrs \<Rightarrow> (v, w) \<in> set nbrs)"

definition endpoints :: "(node \<times> node \<times> int) list \<Rightarrow> node list" where
  "endpoints es = concat (map (\<lambda>(u, v, w). [u, v]) es)"

text \<open>A forest of \<open>G\<close>: each edge is an edge of \<open>G\<close> with its weight and reaches a node
  that no earlier edge touches, so no edge closes a cycle.\<close>

fun forest_edges :: "wgraph \<Rightarrow> node list \<Rightarrow> (node \<times> node \<times> int) list \<Rightarrow> bool" where
  "forest_edges G T [] = True"
| "forest_edges G T ((u, v, w) # es) =
     (has_edge G u v w \<and> v \<notin> set T \<and> v \<noteq> u \<and> forest_edges G (u # v # T) es)"

text \<open>A potential: no edge leads to a node whose value exceeds its source's by more
  than the edge weight.\<close>

definition potential_ok :: "wgraph \<Rightarrow> (node \<Rightarrow> int) \<Rightarrow> bool" where
  "potential_ok G pot = list_all (\<lambda>(u, nbrs). list_all (\<lambda>(v, w). pot v \<le> pot u + w) nbrs) G"

text \<open>The invariant of \<^verbatim>\<open>prim_mst_edges\<close>: every frontier entry is an edge of \<open>G\<close>
  leaving a visited node, the visited nodes and the yielded edges have left the node set,
  and the yielded edges form a forest.\<close>

definition prim_inv :: "wgraph \<Rightarrow> pstate \<Rightarrow> bool" where
  "prim_inv G st =
     (list_all (\<lambda>(w, c, u, v). u \<in> set (p_visited st) \<and> has_edge G u v w) (p_frontier st)
      \<and> set (p_visited st) \<inter> set (p_nodes st) = {}
      \<and> set (endpoints (p_edges st)) \<inter> set (p_nodes st) = {}
      \<and> set (p_nodes st) \<subseteq> set (graph_nodes G)
      \<and> forest_edges G [] (p_edges st))"

text \<open>An edge list as a sorted list of undirected edges, to compare trees whatever the
  order and direction in which their edges are printed.\<close>

definition undirected :: "(node \<times> node \<times> int) list \<Rightarrow> (node \<times> node \<times> int) list" where
  "undirected es = sort (map (\<lambda>(a, b, w). (min a b, max a b, w)) es)"

declare dijkstra_loop.simps [code] prim_inner.simps [code] prim_outer.simps [code]


section \<open>Prim's algorithm yields a forest\<close>

lemma heap_pop_in:
  assumes "h \<noteq> []" and "heap_pop h = (x, rest)"
  shows "x \<in> set h \<and> set rest \<subseteq> set h \<and> length rest < length h"
proof -
  have m: "min_list h \<in> set h"
    using assms(1) by (simp add: min_list_Min)
  then show ?thesis
    using assms by (auto simp: heap_pop_def length_remove1 dest: set_remove1_subset [THEN subsetD])
qed

lemma push_edges_fields [simp]:
  "p_nodes (push_edges chk v nbrs st) = p_nodes st"
  "p_visited (push_edges chk v nbrs st) = p_visited st"
  "p_edges (push_edges chk v nbrs st) = p_edges st"
  by (induction nbrs arbitrary: st) auto

lemma push_edges_frontier:
  assumes "list_all P (p_frontier st)" and "\<And>w wt c. (w, wt) \<in> set nbrs \<Longrightarrow> P (wt, c, v, w)"
  shows "list_all P (p_frontier (push_edges chk v nbrs st))"
  using assms by (induction nbrs arbitrary: st) auto

lemma endpoints_simps [simp]:
  "endpoints [] = []"
  "endpoints ((u, v, w) # es) = u # v # endpoints es"
  "endpoints (es @ fs) = endpoints es @ endpoints fs"
  by (simp_all add: endpoints_def)

lemma forest_edges_snoc:
  "forest_edges G T (es @ [(u, v, w)]) \<longleftrightarrow>
     forest_edges G T es \<and> has_edge G u v w \<and> v \<notin> set T \<and> v \<notin> set (endpoints es) \<and> v \<noteq> u"
  by (induction G T es rule: forest_edges.induct) auto

lemma has_edge_adj:
  assumes "v \<in> set (graph_nodes G)" and "(w, wt) \<in> set (the (map_of G v))"
  shows "has_edge G v w wt"
proof -
  obtain nbrs where "map_of G v = Some nbrs"
    using assms(1) by (auto simp: graph_nodes_def dest: weak_map_of_SomeI)
  then show ?thesis
    using assms(2) by (simp add: has_edge_def)
qed

lemma prim_step_inv:
  assumes inv: "prim_inv G st" and ne: "p_frontier st \<noteq> []"
  shows "prim_inv G (prim_step G st)
         \<and> set (p_nodes (prim_step G st)) \<subseteq> set (p_nodes st)
         \<and> (length (p_nodes (prim_step G st)), length (p_frontier (prim_step G st)))
             < (length (p_nodes st), length (p_frontier st))"
proof -
  obtain W c u v rest where hp: "heap_pop (p_frontier st) = ((W, c, u, v), rest)"
    by (metis prod.exhaust)
  note pop = heap_pop_in [OF ne hp]
  have fu: "u \<in> set (p_visited st)" "has_edge G u v W"
    using inv pop by (auto simp: prim_inv_def list_all_iff)
  show ?thesis
  proof (cases "v \<in> set (p_visited st) \<or> v \<notin> set (p_nodes st)")
    case True
    then show ?thesis
      using inv pop by (auto simp: prim_step_def hp prim_inv_def list_all_iff)
  next
    case False
    let ?st1 = "st\<lparr>p_frontier := rest, p_edges := p_edges st @ [(u, v, W)],
                   p_visited := p_visited st @ [v], p_nodes := removeAll v (p_nodes st)\<rparr>"
    have step: "prim_step G st = push_edges True v (the (map_of G v)) ?st1"
      using False by (simp add: prim_step_def hp)
    have vG: "v \<in> set (graph_nodes G)"
      using False inv by (auto simp: prim_inv_def)
    have uN: "u \<notin> set (p_nodes st)"
      using fu inv by (auto simp: prim_inv_def)
    have fr: "list_all (\<lambda>(w, c, a, b). a \<in> set (p_visited ?st1) \<and> has_edge G a b w)
                (p_frontier (push_edges True v (the (map_of G v)) ?st1))"
      by (rule push_edges_frontier) (use inv pop in \<open>auto simp: prim_inv_def list_all_iff intro: has_edge_adj [OF vG]\<close>)
    have "prim_inv G (prim_step G st)"
      using inv False fu uN fr unfolding step
      by (auto simp: prim_inv_def forest_edges_snoc)
    moreover have "length (removeAll v (p_nodes st)) < length (p_nodes st)"
      using False by (simp add: length_removeAll_less)
    ultimately show ?thesis
      by (auto simp: step)
  qed
qed

lemma prim_inner_Some:
  assumes "prim_inv G st"
  shows "\<exists>st'. prim_inner G st = Some st' \<and> prim_inv G st' \<and> set (p_nodes st') \<subseteq> set (p_nodes st)"
  using assms
proof (induction "(length (p_nodes st), length (p_frontier st))" arbitrary: st rule: less_induct)
  case less
  show ?case
  proof (cases "p_nodes st = [] \<or> p_frontier st = []")
    case True
    then show ?thesis
      using less.prems by (subst prim_inner.simps) simp
  next
    case False
    then have s: "prim_inv G (prim_step G st)" "set (p_nodes (prim_step G st)) \<subseteq> set (p_nodes st)"
      and lt: "(length (p_nodes (prim_step G st)), length (p_frontier (prim_step G st)))
               < (length (p_nodes st), length (p_frontier st))"
      using prim_step_inv [OF less.prems] by blast+
    obtain st' where "prim_inner G (prim_step G st) = Some st'" "prim_inv G st'"
      "set (p_nodes st') \<subseteq> set (p_nodes (prim_step G st))"
      using less.hyps [OF lt s(1)] by blast
    then show ?thesis
      using False s(2) by (subst prim_inner.simps) auto
  qed
qed

lemma prim_start_inv:
  assumes inv: "prim_inv G st" and ne: "p_nodes st \<noteq> []" and ord: "set (p_nodes st) \<subseteq> set order"
  shows "prim_inv G (prim_start G order st)
         \<and> set (p_nodes (prim_start G order st)) \<subset> set (p_nodes st)"
proof -
  let ?u = "hd (filter (\<lambda>x. x \<in> set (p_nodes st)) order)"
  have "filter (\<lambda>x. x \<in> set (p_nodes st)) order \<noteq> []"
    using ne ord by (auto simp: filter_empty_conv neq_Nil_conv)
  then have uN: "?u \<in> set (p_nodes st)"
    using hd_in_set by fastforce
  then have uG: "?u \<in> set (graph_nodes G)"
    using inv by (auto simp: prim_inv_def)
  let ?st1 = "st\<lparr>p_nodes := removeAll ?u (p_nodes st), p_visited := [?u], p_frontier := []\<rparr>"
  have st: "prim_start G order st = push_edges False ?u (the (map_of G ?u)) ?st1"
    by (simp add: prim_start_def Let_def)
  have fr: "list_all (\<lambda>(w, c, a, b). a \<in> set (p_visited ?st1) \<and> has_edge G a b w)
              (p_frontier (push_edges False ?u (the (map_of G ?u)) ?st1))"
    by (rule push_edges_frontier) (auto intro: has_edge_adj [OF uG])
  show ?thesis
    using inv fr uN unfolding st by (auto simp: prim_inv_def)
qed

lemma prim_outer_Some:
  assumes "prim_inv G st" and "set (p_nodes st) \<subseteq> set order"
  shows "\<exists>st'. prim_outer G order st = Some st' \<and> prim_inv G st'"
  using assms
proof (induction "card (set (p_nodes st))" arbitrary: st rule: less_induct)
  case less
  show ?case
  proof (cases "p_nodes st = []")
    case True
    then show ?thesis
      using less.prems by (subst prim_outer.simps) simp
  next
    case False
    note s = prim_start_inv [OF less.prems(1) False less.prems(2)]
    obtain st1 where i: "prim_inner G (prim_start G order st) = Some st1" "prim_inv G st1"
      "set (p_nodes st1) \<subseteq> set (p_nodes (prim_start G order st))"
      using prim_inner_Some s by blast
    have "set (p_nodes st1) \<subset> set (p_nodes st)"
      using s i(3) by blast
    then have "card (set (p_nodes st1)) < card (set (p_nodes st))"
      by (simp add: psubset_card_mono)
    then obtain st' where "prim_outer G order st1 = Some st'" "prim_inv G st'"
      using less.hyps i(2) less.prems(2) \<open>set (p_nodes st1) \<subset> set (p_nodes st)\<close> by blast
    then show ?thesis
      using False i(1) by (subst prim_outer.simps) simp
  qed
qed

lemma prim_start_head:
  assumes "u \<in> set (p_nodes st)"
  shows "prim_start G (u # rest) st = prim_start G [u] st"
  using assms by (simp add: prim_start_def)

lemma prim_mst_edges_first_tree:
  assumes "u \<in> set (graph_nodes G)"
    and "case prim_inner G (prim_start G [u] (prim_init G)) of None \<Rightarrow> False | Some st1 \<Rightarrow> p_nodes st1 = []"
  shows "prim_mst_edges G (u # rest) = prim_mst_edges G [u]"
proof -
  obtain st1 where i: "prim_inner G (prim_start G [u] (prim_init G)) = Some st1" "p_nodes st1 = []"
    using assms(2) by (auto split: option.splits)
  have ne: "p_nodes (prim_init G) \<noteq> []" and uN: "u \<in> set (p_nodes (prim_init G))"
    using assms(1) by (auto simp: prim_init_def)
  have "prim_outer G order (prim_init G) = Some st1" if "prim_start G order (prim_init G) = prim_start G [u] (prim_init G)" for order
    using ne i that by (subst prim_outer.simps) (simp add: prim_outer.simps [of G order st1])
  then show ?thesis
    using prim_start_head [OF uN] by (simp add: prim_mst_edges_def)
qed

lemma prim_mst_edges_Some_forest:
  assumes "set (graph_nodes G) \<subseteq> set order"
  shows "\<exists>es. prim_mst_edges G order = Some es \<and> forest_edges G [] es"
proof -
  have "prim_inv G (prim_init G)" and "set (p_nodes (prim_init G)) \<subseteq> set order"
    using assms by (simp_all add: prim_inv_def prim_init_def)
  then obtain st where "prim_outer G order (prim_init G) = Some st" "prim_inv G st"
    using prim_outer_Some by blast
  then show ?thesis
    by (simp add: prim_mst_edges_def prim_inv_def)
qed

text \<open>C26: whatever edge list the script is given, the minimum spanning tree it asks for on
  line 26 is computed: \<^verbatim>\<open>prim_mst_edges\<close> returns when the node set is popped in an
  order that lists every node, and the edges it yields form a forest of the graph, each an
  edge of the graph with its weight and reaching a node no earlier edge touches.\<close>

theorem prim_mst_edges_forest:
  assumes "set (graph_nodes (build_graph es)) \<subseteq> set order"
  shows "\<exists>ts. prim_mst_edges (build_graph es) order = Some ts \<and> forest_edges (build_graph es) [] ts"
  using prim_mst_edges_Some_forest [OF assms] .

theorem prim_mst_edges_forest_witness:
  "set (graph_nodes (build_graph edges)) \<subseteq> set (rev (graph_nodes (build_graph edges)))
   \<and> (\<exists>ts. prim_mst_edges (build_graph edges) (rev (graph_nodes (build_graph edges))) = Some ts
          \<and> forest_edges (build_graph edges) [] ts)"
  using prim_mst_edges_forest [of edges "rev (graph_nodes (build_graph edges))"] by simp

section \<open>Shortest distances on the demo graph\<close>

lemma potential_okD:
  assumes "potential_ok G pot" and "(u, nbrs) \<in> set G" and "(v, w) \<in> set nbrs"
  shows "pot v \<le> pot u + w"
proof -
  have "\<forall>(v, w) \<in> set nbrs. pot v \<le> pot u + w"
    using bspec [OF assms(1) [unfolded potential_ok_def list_all_iff] assms(2)] by simp
  then show ?thesis
    using assms(3) by fastforce
qed

text \<open>A potential that is 0 at the source bounds the weight of every walk from it.\<close>

lemma walk_weight_potential:
  assumes "potential_ok G pot" and "walk_weight G p = Some w" and "p \<noteq> []"
  shows "pot (last p) \<le> pot (hd p) + w"
  using assms
proof (induction G p arbitrary: w rule: walk_weight.induct)
  case (3 G u v p)
  then obtain w1 w2 where e: "edge_weight G u v = Some w1" and r: "walk_weight G (v # p) = Some w2"
    and w: "w = w1 + w2"
    by (auto split: option.splits)
  obtain nbrs where "map_of G u = Some nbrs" "map_of nbrs v = Some w1"
    using e by (auto simp: edge_weight_def split: option.splits)
  then have "pot v \<le> pot u + w1"
    by (auto intro: potential_okD [OF "3.prems"(1)] dest: map_of_SomeD)
  then show ?case
    using "3.IH" [OF e "3.prems"(1) r] w by simp
qed (auto split: if_splits)

lemma demo_dijkstra_run:
  "single_source_dijkstra demo_graph start_node = Some (Inr ([(ascii ''A'', 0), (ascii ''C'', 9), (ascii ''D'', 12), (ascii ''B'', 22), (ascii ''I'', 42), (ascii ''E'', 45), (ascii ''F'', 51), (ascii ''H'', 61), (ascii ''G'', 63)],
     [(ascii ''A'', [ascii ''A'']), (ascii ''B'', [ascii ''A'', ascii ''B'']), (ascii ''C'', [ascii ''A'', ascii ''C'']), (ascii ''D'', [ascii ''A'', ascii ''D'']), (ascii ''E'', [ascii ''A'', ascii ''D'', ascii ''E'']), (ascii ''F'', [ascii ''A'', ascii ''C'', ascii ''F'']), (ascii ''I'', [ascii ''A'', ascii ''D'', ascii ''I'']), (ascii ''G'', [ascii ''A'', ascii ''D'', ascii ''I'', ascii ''G'']), (ascii ''H'', [ascii ''A'', ascii ''D'', ascii ''I'', ascii ''H''])]))"
  by code_simp

lemma demo_dijkstra_certificate:
  "potential_ok demo_graph (\<lambda>v. case map_of [(ascii ''A'', 0), (ascii ''C'', 9), (ascii ''D'', 12), (ascii ''B'', 22), (ascii ''I'', 42), (ascii ''E'', 45), (ascii ''F'', 51), (ascii ''H'', 61), (ascii ''G'', 63)] v of None \<Rightarrow> 0 | Some d \<Rightarrow> d)
   \<and> list_all (\<lambda>(v, d). case map_of [(ascii ''A'', [ascii ''A'']), (ascii ''B'', [ascii ''A'', ascii ''B'']), (ascii ''C'', [ascii ''A'', ascii ''C'']), (ascii ''D'', [ascii ''A'', ascii ''D'']), (ascii ''E'', [ascii ''A'', ascii ''D'', ascii ''E'']), (ascii ''F'', [ascii ''A'', ascii ''C'', ascii ''F'']), (ascii ''I'', [ascii ''A'', ascii ''D'', ascii ''I'']), (ascii ''G'', [ascii ''A'', ascii ''D'', ascii ''I'', ascii ''G'']), (ascii ''H'', [ascii ''A'', ascii ''D'', ascii ''I'', ascii ''H''])] v of None \<Rightarrow> False
        | Some path \<Rightarrow> path \<noteq> [] \<and> hd path = start_node \<and> last path = v \<and> walk_weight demo_graph path = Some d)
      [(ascii ''A'', 0), (ascii ''C'', 9), (ascii ''D'', 12), (ascii ''B'', 22), (ascii ''I'', 42), (ascii ''E'', 45), (ascii ''F'', 51), (ascii ''H'', 61), (ascii ''G'', 63)]"
  by code_simp

text \<open>C27: every distance the script prints is the weight of the path it prints, a walk of the graph from \<open>A\<close>, and no walk from \<open>A\<close> to that node is lighter: \<^verbatim>\<open>single_source_dijkstra\<close> returns shortest distances on the demo graph.\<close>

theorem dijkstra_demo_shortest:
  assumes "demo_distances = Some (Inr ds)" and "demo_paths = Some (Inr ps)" and "map_of ds v = Some d"
  shows "(\<exists>path. map_of ps v = Some path \<and> hd path = start_node \<and> last path = v
                 \<and> walk_weight demo_graph path = Some d)
         \<and> (\<forall>p w. p \<noteq> [] \<and> hd p = start_node \<and> last p = v \<and> walk_weight demo_graph p = Some w \<longrightarrow> d \<le> w)"
proof -
  let ?pot = "\<lambda>v. case map_of ds v of None \<Rightarrow> 0 | Some d \<Rightarrow> d"
  have t: "ds = [(ascii ''A'', 0), (ascii ''C'', 9), (ascii ''D'', 12), (ascii ''B'', 22), (ascii ''I'', 42), (ascii ''E'', 45), (ascii ''F'', 51), (ascii ''H'', 61), (ascii ''G'', 63)]" "ps = [(ascii ''A'', [ascii ''A'']), (ascii ''B'', [ascii ''A'', ascii ''B'']), (ascii ''C'', [ascii ''A'', ascii ''C'']), (ascii ''D'', [ascii ''A'', ascii ''D'']), (ascii ''E'', [ascii ''A'', ascii ''D'', ascii ''E'']), (ascii ''F'', [ascii ''A'', ascii ''C'', ascii ''F'']), (ascii ''I'', [ascii ''A'', ascii ''D'', ascii ''I'']), (ascii ''G'', [ascii ''A'', ascii ''D'', ascii ''I'', ascii ''G'']), (ascii ''H'', [ascii ''A'', ascii ''D'', ascii ''I'', ascii ''H''])]"
    using assms(1,2) demo_dijkstra_run
    by (simp_all add: demo_distances_def demo_paths_def single_source_dijkstra_path_length_def
                      single_source_dijkstra_path_def)
  have cert: "potential_ok demo_graph ?pot
      \<and> list_all (\<lambda>(v, d). case map_of ps v of None \<Rightarrow> False
           | Some path \<Rightarrow> path \<noteq> [] \<and> hd path = start_node \<and> last path = v \<and> walk_weight demo_graph path = Some d) ds"
    unfolding t by (rule demo_dijkstra_certificate)
  then have pot: "potential_ok demo_graph ?pot" ..
  have row: "(v, d) \<in> set ds"
    using assms(3) by (rule map_of_SomeD)
  have "?pot start_node = 0"
    by (simp add: t(1) start_node_def ascii_def)
  then have low: "d \<le> w" if "p \<noteq> []" "hd p = start_node" "last p = v" "walk_weight demo_graph p = Some w" for p w
    using walk_weight_potential [OF pot that(4,1)] that(2,3) assms(3) by simp
  have "case map_of ps v of None \<Rightarrow> False
          | Some path \<Rightarrow> path \<noteq> [] \<and> hd path = start_node \<and> last path = v \<and> walk_weight demo_graph path = Some d"
    using cert row unfolding list_all_iff by fastforce
  then show ?thesis
    using low by (auto split: option.splits)
qed

theorem dijkstra_demo_shortest_witness:
  "demo_distances = Some (Inr [(ascii ''A'', 0), (ascii ''C'', 9), (ascii ''D'', 12), (ascii ''B'', 22), (ascii ''I'', 42), (ascii ''E'', 45), (ascii ''F'', 51), (ascii ''H'', 61), (ascii ''G'', 63)])
   \<and> demo_paths = Some (Inr [(ascii ''A'', [ascii ''A'']), (ascii ''B'', [ascii ''A'', ascii ''B'']), (ascii ''C'', [ascii ''A'', ascii ''C'']), (ascii ''D'', [ascii ''A'', ascii ''D'']), (ascii ''E'', [ascii ''A'', ascii ''D'', ascii ''E'']), (ascii ''F'', [ascii ''A'', ascii ''C'', ascii ''F'']), (ascii ''I'', [ascii ''A'', ascii ''D'', ascii ''I'']), (ascii ''G'', [ascii ''A'', ascii ''D'', ascii ''I'', ascii ''G'']), (ascii ''H'', [ascii ''A'', ascii ''D'', ascii ''I'', ascii ''H''])])
   \<and> (\<exists>path. map_of [(ascii ''A'', [ascii ''A'']), (ascii ''B'', [ascii ''A'', ascii ''B'']), (ascii ''C'', [ascii ''A'', ascii ''C'']), (ascii ''D'', [ascii ''A'', ascii ''D'']), (ascii ''E'', [ascii ''A'', ascii ''D'', ascii ''E'']), (ascii ''F'', [ascii ''A'', ascii ''C'', ascii ''F'']), (ascii ''I'', [ascii ''A'', ascii ''D'', ascii ''I'']), (ascii ''G'', [ascii ''A'', ascii ''D'', ascii ''I'', ascii ''G'']), (ascii ''H'', [ascii ''A'', ascii ''D'', ascii ''I'', ascii ''H''])] (ascii ''E'') = Some path \<and> hd path = start_node
          \<and> last path = ascii ''E'' \<and> walk_weight demo_graph path = Some 45)
   \<and> 45 \<le> the (walk_weight demo_graph [ascii ''A'', ascii ''B'', ascii ''E''])"
proof -
  have h: "demo_distances = Some (Inr [(ascii ''A'', 0), (ascii ''C'', 9), (ascii ''D'', 12), (ascii ''B'', 22), (ascii ''I'', 42), (ascii ''E'', 45), (ascii ''F'', 51), (ascii ''H'', 61), (ascii ''G'', 63)])" "demo_paths = Some (Inr [(ascii ''A'', [ascii ''A'']), (ascii ''B'', [ascii ''A'', ascii ''B'']), (ascii ''C'', [ascii ''A'', ascii ''C'']), (ascii ''D'', [ascii ''A'', ascii ''D'']), (ascii ''E'', [ascii ''A'', ascii ''D'', ascii ''E'']), (ascii ''F'', [ascii ''A'', ascii ''C'', ascii ''F'']), (ascii ''I'', [ascii ''A'', ascii ''D'', ascii ''I'']), (ascii ''G'', [ascii ''A'', ascii ''D'', ascii ''I'', ascii ''G'']), (ascii ''H'', [ascii ''A'', ascii ''D'', ascii ''I'', ascii ''H''])])"
    using demo_dijkstra_run
    by (simp_all add: demo_distances_def demo_paths_def single_source_dijkstra_path_length_def
                      single_source_dijkstra_path_def)
  have m: "map_of [(ascii ''A'', 0), (ascii ''C'', 9), (ascii ''D'', 12), (ascii ''B'', 22), (ascii ''I'', 42), (ascii ''E'', 45), (ascii ''F'', 51), (ascii ''H'', 61), (ascii ''G'', 63)] (ascii ''E'') = Some 45"
    by (simp add: ascii_def)
  have ww: "walk_weight demo_graph [ascii ''A'', ascii ''B'', ascii ''E''] = Some 56"
    by code_simp
  note r = dijkstra_demo_shortest [OF h m]
  have "45 \<le> (56::int)"
    using r ww by (simp add: start_node_def)
  then show ?thesis
    using h r ww by simp
qed

section \<open>The spanning tree of the demo graph\<close>

lemma demo_drawing_split:
  "list_all plot_ok (demo_drawing paths MST) \<longleftrightarrow>
     list_all plot_ok (demo_drawing paths []) \<and> plot_ok (DrawEdges demo_graph pos (edge_pairs MST) 3 (ascii ''red''))"
  by (auto simp: demo_drawing_def edge_pairs_def)

lemma demo_drawing_fixed_panels:
  "list_all plot_ok (demo_drawing [(ascii ''A'', [ascii ''A'']), (ascii ''B'', [ascii ''A'', ascii ''B'']), (ascii ''C'', [ascii ''A'', ascii ''C'']), (ascii ''D'', [ascii ''A'', ascii ''D'']), (ascii ''E'', [ascii ''A'', ascii ''D'', ascii ''E'']), (ascii ''F'', [ascii ''A'', ascii ''C'', ascii ''F'']), (ascii ''I'', [ascii ''A'', ascii ''D'', ascii ''I'']), (ascii ''G'', [ascii ''A'', ascii ''D'', ascii ''I'', ascii ''G'']), (ascii ''H'', [ascii ''A'', ascii ''D'', ascii ''I'', ascii ''H''])] [])
   \<and> list_all (\<lambda>(a, b). edge_weight demo_graph a b \<noteq> None) (spt_edges [(ascii ''A'', [ascii ''A'']), (ascii ''B'', [ascii ''A'', ascii ''B'']), (ascii ''C'', [ascii ''A'', ascii ''C'']), (ascii ''D'', [ascii ''A'', ascii ''D'']), (ascii ''E'', [ascii ''A'', ascii ''D'', ascii ''E'']), (ascii ''F'', [ascii ''A'', ascii ''C'', ascii ''F'']), (ascii ''I'', [ascii ''A'', ascii ''D'', ascii ''I'']), (ascii ''G'', [ascii ''A'', ascii ''D'', ascii ''I'', ascii ''G'']), (ascii ''H'', [ascii ''A'', ascii ''D'', ascii ''I'', ascii ''H''])])"
  by code_simp

lemma demo_tree_edges_drawable:
  "list_all (\<lambda>(x, y, w :: int). map_of pos x \<noteq> None \<and> map_of pos y \<noteq> None
       \<and> edge_weight demo_graph x y \<noteq> None \<and> edge_weight demo_graph y x \<noteq> None)
     [(ascii ''A'', ascii ''B'', 22), (ascii ''A'', ascii ''C'', 9), (ascii ''C'', ascii ''D'', 4), (ascii ''D'', ascii ''I'', 30), (ascii ''E'', ascii ''F'', 18), (ascii ''E'', ascii ''G'', 23), (ascii ''G'', ascii ''I'', 21), (ascii ''H'', ascii ''I'', 19)]"
  by code_simp

lemma undirected_mem:
  assumes "(a, b) \<in> set (map (\<lambda>(u, v, w). (u, v)) es)"
  shows "\<exists>w. (min a b, max a b, w) \<in> set (undirected es)"
  using assms by (force simp: undirected_def)

lemma min_max_cases:
  "(min a b, max a b) = (a, b) \<or> (min a b, max a b) = (b, (a::'a::linorder))"
  by (cases "a \<le> b") (auto simp: min_def max_def)

lemma demo_mst_runs:
  "list_all (\<lambda>u. case prim_inner demo_graph (prim_start demo_graph [u] (prim_init demo_graph)) of
       None \<Rightarrow> False | Some st1 \<Rightarrow> p_nodes st1 = []) (graph_nodes demo_graph)
   \<and> list_all (\<lambda>u. case demo_mst [u] of None \<Rightarrow> False
       | Some T \<Rightarrow> mst_total_weight T = 146
           \<and> undirected (edge_iter T []) = [(ascii ''A'', ascii ''B'', 22), (ascii ''A'', ascii ''C'', 9), (ascii ''C'', ascii ''D'', 4), (ascii ''D'', ascii ''I'', 30), (ascii ''E'', ascii ''F'', 18), (ascii ''E'', ascii ''G'', 23), (ascii ''G'', ascii ''I'', 21), (ascii ''H'', ascii ''I'', 19)])
       (graph_nodes demo_graph)"
  by code_simp

lemma demo_mst_first_node:
  assumes "u \<in> set (graph_nodes demo_graph)"
  shows "demo_mst (u # rest) = demo_mst [u]"
proof -
  have "prim_mst_edges demo_graph (u # rest) = prim_mst_edges demo_graph [u]"
    using demo_mst_runs assms by (intro prim_mst_edges_first_tree) (auto simp: list_all_iff)
  then show ?thesis
    by (simp add: demo_mst_def minimum_spanning_tree_def)
qed

text \<open>C28: whichever node \<^verbatim>\<open>set(G).pop()\<close> returns first, \<^verbatim>\<open>minimum_spanning_tree\<close> builds the same tree of eight edges and the script prints a total weight of 146.\<close>

theorem demo_mst_any_start:
  assumes "u \<in> set (graph_nodes demo_graph)"
  shows "\<exists>T. demo_mst (u # rest) = Some T \<and> mst_total_weight T = 146
              \<and> undirected (edge_iter T []) = [(ascii ''A'', ascii ''B'', 22), (ascii ''A'', ascii ''C'', 9), (ascii ''C'', ascii ''D'', 4), (ascii ''D'', ascii ''I'', 30), (ascii ''E'', ascii ''F'', 18), (ascii ''E'', ascii ''G'', 23), (ascii ''G'', ascii ''I'', 21), (ascii ''H'', ascii ''I'', 19)]"
  using demo_mst_first_node [OF assms] demo_mst_runs assms by (auto simp: list_all_iff split: option.splits)

theorem demo_mst_any_start_witness:
  "ascii ''E'' \<in> set (graph_nodes demo_graph)
   \<and> (\<exists>T. demo_mst [ascii ''E'', ascii ''A''] = Some T \<and> mst_total_weight T = 146)"
proof -
  have e: "ascii ''E'' \<in> set (graph_nodes demo_graph)"
    by code_simp
  show ?thesis
    using demo_mst_any_start [OF e, of "[ascii ''A'']"] e by auto
qed

text \<open>C29: the drawing cannot fail whichever node \<^verbatim>\<open>set(G).pop()\<close> returns first:
  the subplot indices are in range, \<^verbatim>\<open>pos\<close> places every node, every labelled edge and
  every highlighted edge, and the highlighted edges of the shortest path tree and of the
  spanning tree are edges of the graph.\<close>

theorem demo_drawing_safe:
  assumes "u \<in> set (graph_nodes demo_graph)"
  shows "\<exists>paths MST. demo_paths = Some (Inr paths) \<and> demo_mst (u # rest) = Some MST
           \<and> list_all plot_ok (demo_drawing paths MST)
           \<and> list_all (\<lambda>(a, b). edge_weight demo_graph a b \<noteq> None) (spt_edges paths @ edge_pairs MST)"
proof -
  let ?ps = "[(ascii ''A'', [ascii ''A'']), (ascii ''B'', [ascii ''A'', ascii ''B'']), (ascii ''C'', [ascii ''A'', ascii ''C'']), (ascii ''D'', [ascii ''A'', ascii ''D'']), (ascii ''E'', [ascii ''A'', ascii ''D'', ascii ''E'']), (ascii ''F'', [ascii ''A'', ascii ''C'', ascii ''F'']), (ascii ''I'', [ascii ''A'', ascii ''D'', ascii ''I'']), (ascii ''G'', [ascii ''A'', ascii ''D'', ascii ''I'', ascii ''G'']), (ascii ''H'', [ascii ''A'', ascii ''D'', ascii ''I'', ascii ''H''])]"
  have p: "demo_paths = Some (Inr ?ps)"
    using demo_dijkstra_run by (simp add: demo_paths_def single_source_dijkstra_path_def)
  note c = bspec [OF demo_mst_runs [THEN conjunct2, unfolded list_all_iff] assms]
  obtain MST where m: "demo_mst [u] = Some MST"
    and u: "undirected (edge_iter MST []) = [(ascii ''A'', ascii ''B'', 22), (ascii ''A'', ascii ''C'', 9), (ascii ''C'', ascii ''D'', 4), (ascii ''D'', ascii ''I'', 30), (ascii ''E'', ascii ''F'', 18), (ascii ''E'', ascii ''G'', 23), (ascii ''G'', ascii ''I'', 21), (ascii ''H'', ascii ''I'', 19)]"
    using c by (auto split: option.splits)
  have e: "map_of pos a \<noteq> None \<and> map_of pos b \<noteq> None \<and> edge_weight demo_graph a b \<noteq> None"
    if ab: "(a, b) \<in> set (edge_pairs MST)" for a b
  proof -
    obtain w where "(min a b, max a b, w) \<in> set (undirected (edge_iter MST []))"
      using undirected_mem [of a b "edge_iter MST []"] ab by (auto simp: edge_pairs_def)
    note q = bspec [OF demo_tree_edges_drawable [unfolded list_all_iff, folded u] this]
    show ?thesis
      using q min_max_cases [of a b] by auto
  qed
  have "plot_ok (DrawEdges demo_graph pos (edge_pairs MST) 3 (ascii ''red''))"
    and t: "list_all (\<lambda>(a, b). edge_weight demo_graph a b \<noteq> None) (edge_pairs MST)"
    using e by (auto simp: list_all_iff)
  then have "list_all plot_ok (demo_drawing ?ps MST)"
    using demo_drawing_split [of ?ps MST] demo_drawing_fixed_panels by blast
  moreover have "list_all (\<lambda>(a, b). edge_weight demo_graph a b \<noteq> None) (spt_edges ?ps @ edge_pairs MST)"
    unfolding list_all_append using demo_drawing_fixed_panels t by blast
  ultimately show ?thesis
    using p m demo_mst_first_node [OF assms] by auto
qed

theorem demo_drawing_safe_witness:
  "ascii ''H'' \<in> set (graph_nodes demo_graph)
   \<and> (\<exists>paths MST. demo_paths = Some (Inr paths) \<and> demo_mst [ascii ''H''] = Some MST
          \<and> list_all plot_ok (demo_drawing paths MST))"
proof -
  have h: "ascii ''H'' \<in> set (graph_nodes demo_graph)"
    by code_simp
  show ?thesis
    using demo_drawing_safe [OF h, of "[]"] h by auto
qed

end
