(* ===== verification/Spec2Isabelle.thy ===== *)
theory Spec2Isabelle
  imports App GraphDemo
begin

text \<open>
  \<^bold>\<open>A verification development of src/RSA.py and src/Project3/Project3/project3.py.\<close>
  The first program is a textbook RSA engine with an interactive front end; the second,
  independent of it, is a script that runs Dijkstra's and Prim's algorithms of networkx on a
  fixed graph.  Their parts, in the order they call each other, and the theory modelling each:

  \<^item> \<^bold>\<open>Prelude\<close>: the shared error type (one constructor per exception the code raises
    or lets escape: \<open>InvalidInput\<close>, \<open>MessageTooLarge\<close>, \<open>NoInverse\<close>, \<open>DecodeError\<close>,
    \<open>EncodeError\<close>, \<open>OverflowError\<close>, \<open>PowError\<close>), strings as lists of code points,
    bytes as \<open>8 word\<close>, and the random source: \<^verbatim>\<open>secrets\<close> is an infinite tape of
    naturals (\<open>rand_src\<close>) read by \<open>randbelow\<close> and \<open>randbits\<close>, so that every run of
    the code is a function of the tape and every theorem quantifies over all tapes.
  \<^item> \<^bold>\<open>NumberTheory\<close>: an executable \<open>is_prime\<close>, Fermat's little theorem, the square
    roots of 1 modulo a prime and the RSA exponent law \<open>a ^ (e * d) \<equiv> a (mod p * q)\<close>.
  \<^item> \<^bold>\<open>ModArith\<close> (\<^verbatim>\<open>egcd\<close>, \<^verbatim>\<open>modinv\<close>, lines 41--52, and the built-in
    \<^verbatim>\<open>pow(b, e, m)\<close> as \<open>py_pow\<close> over square-and-multiply \<open>mod_exp\<close>): Bezout
    coefficients, \<open>modinv\<close> refines the specification \<open>is_inverse_mod\<close>.
  \<^item> \<^bold>\<open>Primality\<close> (\<^verbatim>\<open>is_probable_prime\<close>, lines 7--30, one definition per loop):
    Miller--Rabin never rejects a prime, is exact below 961, and always returns.
  \<^item> \<^bold>\<open>Codec\<close> (\<^verbatim>\<open>text_to_int\<close>, \<^verbatim>\<open>int_to_text\<close>, lines 76--81, over models of the
    strict UTF-8 codec and of \<^verbatim>\<open>int.from_bytes\<close>, \<^verbatim>\<open>int.to_bytes\<close> and
    \<^verbatim>\<open>int.bit_length\<close>): the round trip for strings without a leading zero byte
    (such a byte is lost, see the findings), the decoding direction of the round trip,
    and the exact error behaviour.
  \<^item> \<^bold>\<open>Crypto\<close> (\<^verbatim>\<open>encrypt_text_plainstore\<close>, \<^verbatim>\<open>decrypt_cipher_to_text\<close>,
    \<^verbatim>\<open>sign_text\<close>, \<^verbatim>\<open>verify_text\<close>, lines 83--111): under the key contract
    \<open>rsa_key_ok\<close>, decrypt-after-encrypt and verify-after-sign; a signature verifies
    exactly the messages with the signed integer; the errors of each operation.
  \<^item> \<^bold>\<open>KeyGen\<close> (\<^verbatim>\<open>generate_prime\<close>, \<^verbatim>\<open>generate_keypair\<close>, lines 32--38 and
    55--74): the three \<^verbatim>\<open>while\<close> loops are \<^theory_text>\<open>partial_function (option)\<close>
    definitions (\<open>prime_search\<close>, \<open>redraw_q\<close>, \<open>choose_e\<close>) whose \<open>None\<close> is a run
    that never returns.  Returned keys satisfy \<open>keypair_inv\<close>; for
    \<open>prime_bits \<le> 9\<close> (or when Miller--Rabin was right) they satisfy \<open>rsa_key_ok\<close>;
    the search returns once a prime candidate is drawn (\<open>search_rejects\<close> describes
    the rejected draws before it); \<^verbatim>\<open>generate_keypair(2)\<close> never returns.
  \<^item> \<^bold>\<open>App\<close> (lines 113--262): the globals as the record \<open>app_state\<close>, the menu
    loops as one step per \<^verbatim>\<open>input()\<close> line (\<open>app_step\<close>, composed of
    \<open>main_menu_step\<close>, \<open>public_menu_step\<close>, \<open>owner_menu_step\<close> and the sub-prompts),
    runs as \<open>app_run\<close>.  The invariant \<open>app_inv\<close> is kept by every run on ASCII input
    lines, so no exception escapes there; the public menu accepts the owner's fresh
    signatures, and the selection prompts index their lists in range.
  \<^item> \<^bold>\<open>GraphDemo\<close> (project3.py lines 4--76, over models of the networkx and
    matplotlib routines it calls): the graph as an association list of neighbour lists in
    insertion order (\<open>add_weighted_edge\<close> is \<^verbatim>\<open>Graph.add_edge\<close>), Dijkstra as the
    record \<open>dstate\<close> of \<^verbatim>\<open>_dijkstra_multisource\<close> with one heap pop per
    \<open>dijkstra_step\<close>, Prim as the record \<open>pstate\<close> of \<^verbatim>\<open>prim_mst_edges\<close> with
    \<open>prim_step\<close>, \<open>prim_inner\<close> and \<open>prim_outer\<close> for its two loops, and
    \<^verbatim>\<open>set(G).pop()\<close> as an explicit parameter \<open>order\<close>.  On every graph Prim returns and
    yields a forest of the graph (\<open>prim_inv\<close> is kept by every step, and a lexicographic
    measure decreases); on the demo graph the printed distances are shortest-walk weights
    (a potential certificate, \<open>potential_ok\<close>), the tree and its weight 146 do not
    depend on the first node popped, and the drawing (lines 34--76, the figure as the list
    of plotting calls \<open>demo_drawing\<close>, each with the check \<open>plot_ok\<close> that makes it raise)
    cannot fail whichever node is popped first.
  \<^item> This theory: properties across components (generated keys work end to end).

  \<^bold>\<open>Bounds and fuel.\<close>  No fuel is used: loops that may not end are partial functions,
  and their termination is proved where it holds (\<open>strip_twos\<close> on \<open>d \<ge> 1\<close>) or
  refuted where it does not (\<open>prime_bits = 2\<close>).  Exactness of the primality test is
  claimed below \<open>961 = 31\<^sup>2\<close> only, the square of the first prime trial division does
  not try; hence the unconditional key theorems are for \<open>prime_bits \<le> 9\<close>
  (\<open>2\<^sup>9 < 961\<close>), and for larger sizes they assume the accepted numbers are prime.
  The networkx loops are partial functions as well; Prim's are proved to return on every
  graph, Dijkstra's is evaluated on the demo graph.

  \<^bold>\<open>Not modelled.\<close>  The probability that Miller--Rabin accepts a composite (the model
  quantifies over all random tapes, it has no measure); the fixed banner lines printed by
  the menus and the hexadecimal rendering of keys (the key values are recorded);
  \<^verbatim>\<open>str.isdigit\<close>, \<^verbatim>\<open>int\<close> and \<^verbatim>\<open>str.upper\<close> beyond ASCII (in Python a
  selection such as \<^verbatim>\<open>'\<^sup>2'\<close> passes \<^verbatim>\<open>isdigit\<close> and makes \<^verbatim>\<open>int\<close> raise, so the
  safety of the menus is claimed for ASCII input only); \<^verbatim>\<open>EOFError\<close> and
  \<^verbatim>\<open>KeyboardInterrupt\<close> at a prompt (a run is a finite list of lines); in
  project3.py the rendering of the figure and the text formatting of the prints, the
  predecessor lists, cutoff and target options and multigraph branches of the networkx
  routines, which the script never uses, and the minimality of the spanning tree, which
  is evaluated (weight 146 from every start) but not proved against all spanning trees.
\<close>

section \<open>Properties across components\<close>

text \<open>
  C4: the key generator and the engine together: for key sizes up to 9 bits, where the
  primality test is exact, every key pair \<^verbatim>\<open>generate_keypair\<close> returns encrypts and
  decrypts back every message whose integer is below \<open>n\<close> and whose UTF-8 form has no
  leading zero byte, and every signature it makes verifies; for larger sizes the same
  holds whenever both accepted numbers are prime.
\<close>

theorem generated_keys_work:
  assumes "generate_keypair bits s = Some (Inr (((n, e), (n', d, p, q)), s'))"
    and "nat bits \<le> 9 \<or> (is_prime p \<and> is_prime q)"
    and "text_to_int msg = Inr m" and "m < n" and "msg \<noteq> []" and "hd msg \<noteq> 0"
  shows "(\<exists>c. encrypt_text_plainstore msg (n, e) = Inr c
            \<and> decrypt_cipher_to_text c (n', d, p, q) = Inr msg)
       \<and> (\<exists>sg. sign_text msg (n', d, p, q) = Inr sg \<and> verify_text msg sg (n, e) = Inr True)"
proof -
  have b: "2 \<le> bits" using assms(1) generate_keypair_small [of bits s] by (cases "bits < 2") auto
  obtain n1 e1 d1 p1 q1 s1 where r: "Inr (((n, e), (n', d, p, q)), s') = (Inr (((n1, e1), (n1, d1, p1, q1)), s1)
      :: error + (pubkey \<times> privkey) \<times> rand_src)"
    and inv: "keypair_inv (nat bits) (n1, e1) (n1, d1, p1, q1)"
    using generate_keypair_Some [OF assms(1) b] by blast
  have inv': "keypair_inv (nat bits) (n, e) (n', d, p, q)" using r inv by simp
  have "is_prime p \<and> is_prime q" using assms(2) keypair_inv_primes [OF inv'] by blast
  then have ok: "rsa_key_ok (n, e) (n', d, p, q)" using keypair_inv_key_ok [OF inv'] by blast
  show ?thesis using decrypt_encrypt [OF ok assms(3-6)] verify_sign [OF ok assms(3,4)] by blast
qed

theorem generated_keys_work_witness:
  "generate_keypair 5 (0 ## 2 ## sconst 0) = Some (Inr (((323, 65537), (323, 161, 17, 19)), sconst 0))
   \<and> text_to_int (ascii ''A'') = Inr 65
   \<and> (\<exists>c. encrypt_text_plainstore (ascii ''A'') (323, 65537) = Inr c
          \<and> decrypt_cipher_to_text c (323, 161, 17, 19) = Inr (ascii ''A''))"
proof -
  have t: "text_to_int (ascii ''A'') = Inr 65"
    by (simp add: text_to_int_def ascii_def utf8_encode_char_def from_bytes_def byte_of_def)
  have h: "ascii ''A'' \<noteq> []" "hd (ascii ''A'') \<noteq> 0" by (simp_all add: ascii_def)
  show ?thesis
    using keypair_run_5 t generated_keys_work [OF keypair_run_5 _ t _ h] by simp
qed

end
